theory Spec2Isabelle
  imports Complex_Main "HOL-Library.Multiset" "HOL-Library.Log_Nat"
begin

section \<open>JavaScript values used by the network statistics module\<close>

text \<open>
  A JavaScript number is a double: a finite value, one of the two infinities, or NaN. A
  finite value is kept as the rational it denotes, and every arithmetic operation rounds
  its exact result to the nearest double, ties to even (\<open>roundDouble\<close>): the result is an
  integer multiple of \<open>2 ^ (e - 52)\<close>, where \<open>2 ^ e\<close> is the largest power of two not above
  its magnitude. The exponent range is not bounded. Overflow and gradual underflow do not
  occur in this module: its numbers are counts (array lengths and sums of them, far below
  \<open>2 ^ 53\<close>, where a double holds every integer) and quotients, differences and
  products of two such numbers. The sign of a zero is not kept; it would only matter when
  a non-zero number is divided by a negative zero, which the module never does.
\<close>

datatype jsnum = Num rat | PosInf | NegInf | NaN

definition pow2 :: "int \<Rightarrow> rat" where
  "pow2 e = (if 0 \<le> e then 2 ^ nat e else 1 / 2 ^ nat (- e))"

text \<open>
  For \<open>q > 0\<close>, the exponent \<open>e\<close> with \<open>2 ^ e \<le> q < 2 ^ (e + 1)\<close>: the difference of the
  bit lengths of numerator and denominator, or one less.
\<close>

definition binaryExponent :: "rat \<Rightarrow> int" where
  "binaryExponent q =
     (case quotient_of q of
        (a, b) \<Rightarrow> (let e0 = bitlen a - bitlen b in if pow2 e0 \<le> q then e0 else e0 - 1))"

definition roundHalfEven :: "rat \<Rightarrow> int" where
  "roundHalfEven x =
     (let n = \<lfloor>x\<rfloor>; r = x - of_int n
      in if r < 1 / 2 then n else if 1 / 2 < r then n + 1 else if even n then n else n + 1)"

definition roundDouble :: "rat \<Rightarrow> rat" where
  "roundDouble q =
     (if q = 0 then 0
      else (let u = pow2 (binaryExponent \<bar>q\<bar> - 52)
            in sgn q * (of_int (roundHalfEven (\<bar>q\<bar> / u)) * u)))"

datatype error = TypeError

fun js_sign :: "jsnum \<Rightarrow> int" where
  "js_sign (Num q) = (if q < 0 then -1 else if q = 0 then 0 else 1)"
| "js_sign PosInf = 1"
| "js_sign NegInf = -1"
| "js_sign NaN = 0"

definition js_inf :: "int \<Rightarrow> jsnum" where
  "js_inf s = (if s < 0 then NegInf else PosInf)"

text \<open>\<open>a / b\<close>: dividing zero by zero gives NaN, dividing anything else by zero an infinity.\<close>

fun js_div :: "jsnum \<Rightarrow> jsnum \<Rightarrow> jsnum" where
  "js_div NaN b = NaN"
| "js_div a NaN = NaN"
| "js_div (Num a) (Num b) =
     (if b = 0 then (if a = 0 then NaN else js_inf (js_sign (Num a)))
      else Num (roundDouble (a / b)))"
| "js_div (Num a) b = Num 0"
| "js_div a (Num b) = js_inf (js_sign a * (if b < 0 then -1 else 1))"
| "js_div a b = NaN"

text \<open>\<open>a * b\<close>: an infinity times zero is NaN.\<close>

fun js_mul :: "jsnum \<Rightarrow> jsnum \<Rightarrow> jsnum" where
  "js_mul NaN b = NaN"
| "js_mul a NaN = NaN"
| "js_mul (Num a) (Num b) = Num (roundDouble (a * b))"
| "js_mul a b = (if js_sign a * js_sign b = 0 then NaN else js_inf (js_sign a * js_sign b))"

text \<open>\<open>a - b\<close>: the difference of two equal infinities is NaN.\<close>

fun js_sub :: "jsnum \<Rightarrow> jsnum \<Rightarrow> jsnum" where
  "js_sub NaN b = NaN"
| "js_sub a NaN = NaN"
| "js_sub (Num a) (Num b) = Num (roundDouble (a - b))"
| "js_sub (Num a) b = js_inf (- js_sign b)"
| "js_sub a (Num b) = a"
| "js_sub a b = (if a = b then NaN else a)"

fun js_max :: "jsnum \<Rightarrow> jsnum \<Rightarrow> jsnum" where
  "js_max NaN b = NaN"
| "js_max a NaN = NaN"
| "js_max PosInf b = PosInf"
| "js_max a PosInf = PosInf"
| "js_max NegInf b = b"
| "js_max a NegInf = a"
| "js_max (Num a) (Num b) = Num (max a b)"

text \<open>\<open>Math.max(...xs)\<close>: minus infinity for no argument.\<close>

definition Math_max :: "jsnum list \<Rightarrow> jsnum" where
  "Math_max xs = foldl js_max NegInf xs"

text \<open>A number is falsy when it is zero or NaN; \<open>a || b\<close> is \<open>a\<close> unless \<open>a\<close> is falsy.\<close>

fun js_truthy :: "jsnum \<Rightarrow> bool" where
  "js_truthy (Num q) = (q \<noteq> 0)"
| "js_truthy NaN = False"
| "js_truthy a = True"

definition js_or :: "jsnum \<Rightarrow> jsnum \<Rightarrow> jsnum" where
  "js_or a b = (if js_truthy a then a else b)"

definition of_count :: "nat \<Rightarrow> jsnum" where
  "of_count n = Num (of_nat n)"

subsection \<open>Array.prototype.sort with a comparator\<close>

text \<open>
  \<open>xs.sort(cmp)\<close> is stable, and a comparator result of NaN counts as zero. The model
  is a stable insertion sort: \<open>x\<close> moves behind \<open>y\<close> only when \<open>cmp x y\<close> is positive.
  ECMAScript fixes the outcome of a sort only for a consistent comparator; the comparators
  of this module are differences of scores that are either all finite or all NaN.
\<close>

fun js_positive :: "jsnum \<Rightarrow> bool" where
  "js_positive (Num q) = (0 < q)"
| "js_positive PosInf = True"
| "js_positive a = False"

fun js_insert :: "('a \<Rightarrow> 'a \<Rightarrow> jsnum) \<Rightarrow> 'a \<Rightarrow> 'a list \<Rightarrow> 'a list" where
  "js_insert cmp x [] = [x]"
| "js_insert cmp x (y # ys) =
     (if js_positive (cmp x y) then y # js_insert cmp x ys else x # y # ys)"

definition js_sort :: "('a \<Rightarrow> 'a \<Rightarrow> jsnum) \<Rightarrow> 'a list \<Rightarrow> 'a list" where
  "js_sort cmp xs = foldr (js_insert cmp) xs []"

subsection \<open>Map objects\<close>

text \<open>
  A \<open>Map\<close> keeps its entries in insertion order, one per key: \<open>set\<close> on a present key
  replaces the value in place, on a new key it appends the entry.
\<close>

fun Map_set :: "('k \<times> 'v) list \<Rightarrow> 'k \<Rightarrow> 'v \<Rightarrow> ('k \<times> 'v) list" where
  "Map_set [] k v = [(k, v)]"
| "Map_set ((k', v') # m) k v =
     (if k' = k then (k, v) # m else (k', v') # Map_set m k v)"

definition Map_get :: "('k \<times> 'v) list \<Rightarrow> 'k \<Rightarrow> 'v option" where
  "Map_get m k = map_of m k"

definition Map_has :: "('k \<times> 'v) list \<Rightarrow> 'k \<Rightarrow> bool" where
  "Map_has m k = (map_of m k \<noteq> None)"

definition Map_values :: "('k \<times> 'v) list \<Rightarrow> 'v list" where
  "Map_values m = map snd m"

definition new_Map :: "('k \<times> 'v) list \<Rightarrow> ('k \<times> 'v) list" where
  "new_Map entries = foldl (\<lambda>m (k, v). Map_set m k v) [] entries"

section \<open>Verses and result records\<close>

text \<open>
  The verse objects built by the data loader. The fields \<open>id\<close>, \<open>x\<close> and \<open>y\<close> are
  written \<open>id_v\<close>, \<open>x_v\<close> and \<open>y_v\<close>. The analysis
  functions return copies of a verse with score fields added (\<open>{...verse, score: s}\<close>);
  these are record extensions of \<open>verse\<close>.
\<close>

record verse =
  id_v :: string
  verse :: string
  book :: string
  refs :: "string list"
  refCount :: nat
  x_v :: jsnum
  y_v :: jsnum

text \<open>One entry of the data loader's \<open>processData\<close>: the references are the keys of \<open>data.r\<close>.\<close>

definition processData :: "string \<Rightarrow> string \<Rightarrow> string list \<Rightarrow> verse" where
  "processData i v r =
     \<lparr>id_v = i, verse = v, book = takeWhile (\<lambda>c. c \<noteq> CHR '' '') v,
      refs = r, refCount = length r, x_v = Num 0, y_v = Num 0\<rparr>"

record centralityEntry = verse +
  degreeCentrality :: jsnum
  normalizedDegree :: nat

record betweennessEntry = verse +
  betweennessCentrality :: jsnum
  betweennessScore :: nat

record clusteringEntry = verse +
  clusteringCoefficient :: jsnum
  neighborConnections :: "nat option"
  possibleConnections :: "nat option"

record hubEntry = verse +
  hubScore :: jsnum
  isHub :: bool

text \<open>
  The result of community detection. A label is a verse id; \<open>None\<close> stands for
  \<open>undefined\<close>, which \<open>labels.get\<close> returns for an id that has no entry.
\<close>

record communityResult =
  communities :: "(string option \<times> verse list) list"
  communityCount :: nat
  labels :: "(string \<times> string option) list"

text \<open>
  The records returned by \<open>getNetworkStatistics\<close> and \<open>computeAllStats\<close>. The fields
  \<open>verse\<close>, \<open>refs\<close> and \<open>centrality\<close> of a top verse are written with the suffix \<open>_t\<close>.
  \<open>avgDegree\<close>, \<open>density\<close> and \<open>centrality_t\<close> hold the numbers that the source then
  formats with \<open>toFixed\<close> (NaN is formatted as the string NaN); \<open>density\<close> is the
  percentage before the sign is appended. An index outside an array reads \<open>undefined\<close>,
  here \<open>None\<close>.
\<close>

record topVerse =
  verse_t :: string
  refs_t :: nat
  centrality_t :: jsnum

record networkStatistics =
  nodeCount :: nat
  edgeCount :: nat
  avgDegree :: jsnum
  medianDegree :: "nat option"
  maxDegree :: "nat option"
  density :: jsnum
  topVerses :: "topVerse list"

record allStats =
  network :: networkStatistics
  centrality :: "centralityEntry list"
  betweenness :: "betweennessEntry list"
  clustering :: "clusteringEntry list"
  hubs :: "hubEntry list"
  communities :: communityResult

text \<open>The module-level cache; \<open>None\<close> is \<open>null\<close>. \<open>lastComputed\<close> holds a time stamp.\<close>

record statsCache =
  centrality :: "centralityEntry list option"
  betweenness :: "betweennessEntry list option"
  clustering :: "clusteringEntry list option"
  communities :: "communityResult option"
  hubs :: "hubEntry list option"
  lastComputed :: "nat option"

definition emptyCache :: statsCache where
  "emptyCache =
     \<lparr>centrality = None, betweenness = None, clustering = None,
      communities = None, hubs = None, lastComputed = None\<rparr>"

definition clearCache :: "statsCache \<Rightarrow> statsCache" where
  "clearCache c = emptyCache"

definition verseMap_of :: "verse list \<Rightarrow> (string \<times> verse) list" where
  "verseMap_of verses = new_Map (map (\<lambda>v. (id_v v, v)) verses)"

section \<open>Degree centrality\<close>

text \<open>
  \<open>centralityEntryOf\<close> is the function mapped over the verses,
  \<open>computeDegreeCentrality\<close> the body of \<open>calculateDegreeCentrality\<close> behind the cache
  test; \<open>calculateDegreeCentrality\<close> threads the cache through.
\<close>

definition centralityEntryOf :: "jsnum \<Rightarrow> verse \<Rightarrow> centralityEntry" where
  "centralityEntryOf maxRefs v =
     verse.extend v
       (centralityEntry.fields (js_div (of_count (refCount v)) maxRefs) (refCount v))"

definition computeDegreeCentrality :: "verse list \<Rightarrow> centralityEntry list" where
  "computeDegreeCentrality verses =
     (let maxRefs = Math_max (map (\<lambda>v. of_count (refCount v)) verses);
          centralityScores = map (centralityEntryOf maxRefs) verses
      in js_sort (\<lambda>a b. js_sub (degreeCentrality b) (degreeCentrality a)) centralityScores)"

definition calculateDegreeCentrality ::
  "statsCache \<Rightarrow> verse list \<Rightarrow> centralityEntry list \<times> statsCache" where
  "calculateDegreeCentrality c verses =
     (case centrality c of
        Some cached \<Rightarrow> (cached, c)
      | None \<Rightarrow>
          (let sorted_v = computeDegreeCentrality verses
           in (sorted_v, c\<lparr>centrality := Some sorted_v\<rparr>)))"

section \<open>Clustering coefficient\<close>

text \<open>\<open>verse.refs.map(id => verseMap.get(id)).filter(v => v)\<close>: the neighbours that resolve.\<close>

definition resolveNeighbors :: "(string \<times> verse) list \<Rightarrow> verse \<Rightarrow> verse list" where
  "resolveNeighbors verseMap v = List.map_filter (Map_get verseMap) (refs v)"

text \<open>
  The two nested loops over \<open>i < j\<close>: for the first neighbour, the later neighbours whose
  id is in its reference list are counted, then the rest of the list is treated alike.
\<close>

fun countConnections :: "verse list \<Rightarrow> nat" where
  "countConnections [] = 0"
| "countConnections (n # ns) =
     length (filter (\<lambda>m. id_v m \<in> set (refs n)) ns) + countConnections ns"

text \<open>The function mapped over the verses by \<open>calculateClusteringCoefficient\<close>.\<close>

definition clusteringScore :: "(string \<times> verse) list \<Rightarrow> verse \<Rightarrow> clusteringEntry" where
  "clusteringScore verseMap v =
     (if refCount v < 2 then verse.extend v (clusteringEntry.fields (Num 0) None None)
      else
        (let neighbors = resolveNeighbors verseMap v in
         if length neighbors < 2
         then verse.extend v (clusteringEntry.fields (Num 0) None None)
         else
           (let connections = countConnections neighbors;
                possible = (length neighbors * (length neighbors - 1)) div 2;
                coefficient = js_div (of_count connections) (of_count possible)
            in verse.extend v
                 (clusteringEntry.fields coefficient (Some connections) (Some possible)))))"

definition computeClusteringCoefficient :: "verse list \<Rightarrow> clusteringEntry list" where
  "computeClusteringCoefficient verses =
     (let verseMap = verseMap_of verses;
          scores = map (clusteringScore verseMap) verses
      in js_sort (\<lambda>a b. js_sub (clusteringCoefficient b) (clusteringCoefficient a)) scores)"

definition calculateClusteringCoefficient ::
  "statsCache \<Rightarrow> verse list \<Rightarrow> clusteringEntry list \<times> statsCache" where
  "calculateClusteringCoefficient c verses =
     (case clustering c of
        Some cached \<Rightarrow> (cached, c)
      | None \<Rightarrow>
          (let sorted_v = computeClusteringCoefficient verses
           in (sorted_v, c\<lparr>clustering := Some sorted_v\<rparr>)))"

text \<open>
  The specification's count: the pairs of positions \<open>i < j\<close> in the resolved neighbour
  list such that neighbour \<open>i\<close> lists the id of neighbour \<open>j\<close>.
\<close>

definition connectedPairs :: "verse list \<Rightarrow> (nat \<times> nat) set" where
  "connectedPairs nb =
     {(i, j). i < j \<and> j < length nb \<and> id_v (nb ! j) \<in> set (refs (nb ! i))}"

text \<open>
  The specification's resolved neighbours, stated on the verse list without the verse
  map: for each id of the reference list of the verse, in order, the verse of the list
  that has this id (the last such verse, should several share the id); an id that no
  verse has is dropped.
\<close>

definition verseWithId :: "verse list \<Rightarrow> string \<Rightarrow> verse option" where
  "verseWithId verses k = find (\<lambda>w. id_v w = k) (rev verses)"

definition resolvedNeighbors :: "verse list \<Rightarrow> verse \<Rightarrow> verse list" where
  "resolvedNeighbors verses v =
     concat (map (\<lambda>k. case verseWithId verses k of Some w \<Rightarrow> [w] | None \<Rightarrow> []) (refs v))"

section \<open>Path finder\<close>

definition maxDepth :: nat where
  "maxDepth = 6"

text \<open>
  The \<open>for (const refId of current.refs)\<close> loop of \<open>findShortestPath\<close>: every reference
  not yet visited is marked visited, and when it resolves in the verse map the path
  extended by the resolved verse is pushed on the queue.
\<close>

fun visitRefs ::
  "(string \<times> verse) list \<Rightarrow> verse list \<Rightarrow> string list \<Rightarrow> verse list list \<Rightarrow> string set
     \<Rightarrow> verse list list \<times> string set" where
  "visitRefs verseMap path [] queue visited = (queue, visited)"
| "visitRefs verseMap path (refId # rest) queue visited =
     (if refId \<notin> visited then
        (case Map_get verseMap refId of
           Some nextVerse \<Rightarrow>
             visitRefs verseMap path rest (queue @ [path @ [nextVerse]]) (insert refId visited)
         | None \<Rightarrow> visitRefs verseMap path rest queue (insert refId visited))
      else visitRefs verseMap path rest queue visited)"

text \<open>
  The verses that \<open>visitRefs\<close> appends, in order; \<open>visitRefs_eq\<close> gives the loop in closed
  form. \<open>allRefs\<close> (every reference of a verse of the map or of a queued path) bounds the
  visited set, which is what makes the search terminate.
\<close>

fun newVerses :: "(string \<times> verse) list \<Rightarrow> string list \<Rightarrow> string set \<Rightarrow> verse list" where
  "newVerses vm [] V = []"
| "newVerses vm (r # rs) V =
     (if r \<notin> V then (case Map_get vm r of Some v \<Rightarrow> [v] | None \<Rightarrow> []) @ newVerses vm rs (insert r V)
      else newVerses vm rs V)"

lemma visitRefs_eq:
  "visitRefs vm path rs q V = (q @ map (\<lambda>v. path @ [v]) (newVerses vm rs V), V \<union> set rs)"
  by (induction rs arbitrary: q V) (auto split: option.splits)

lemma set_newVerses:
  "set (newVerses vm rs V) = {v. \<exists>r \<in> set rs - V. Map_get vm r = Some v}"
  by (induction rs arbitrary: V) (auto split: option.splits)

lemma newVerses_Nil: "set rs \<subseteq> V \<Longrightarrow> newVerses vm rs V = []"
  by (induction rs arbitrary: V) auto

definition allRefs :: "(string \<times> verse) list \<Rightarrow> verse list list \<Rightarrow> string set" where
  "allRefs vm queue =
     (\<Union>v \<in> snd ` set vm. set (refs v)) \<union> (\<Union>p \<in> set queue. \<Union>v \<in> set p. set (refs v))"

lemma finite_allRefs: "finite (allRefs vm queue)"
  by (simp add: allRefs_def)

lemma allRefs_tl: "allRefs vm queue \<subseteq> allRefs vm (path # queue)"
  by (auto simp: allRefs_def)

lemma Map_get_in: "Map_get vm r = Some v \<Longrightarrow> v \<in> snd ` set vm"
  by (auto simp: Map_get_def dest!: map_of_SomeD intro: rev_image_eqI)

lemma allRefs_visit:
  "allRefs vm (queue @ map (\<lambda>v. path @ [v]) (newVerses vm rs V)) \<subseteq> allRefs vm (path # queue)"
  by (auto simp: allRefs_def set_newVerses dest!: Map_get_in)

text \<open>
  The \<open>while (queue.length > 0)\<close> loop. A path longer than \<open>maxDepth\<close> verses is dropped
  before its last verse is compared with the target. Reading \<open>current.id\<close> on an empty
  path would throw; the queue never holds one.
\<close>

function bfsLoop ::
  "(string \<times> verse) list \<Rightarrow> verse \<Rightarrow> verse list list \<Rightarrow> string set
     \<Rightarrow> error + verse list option" where
  "bfsLoop verseMap end_v [] visited = Inr None"
| "bfsLoop verseMap end_v (path # queue) visited =
     (if length path > maxDepth then bfsLoop verseMap end_v queue visited
      else if path = [] then Inl TypeError
      else if id_v (last path) = id_v end_v then Inr (Some path)
      else
        (case visitRefs verseMap path (refs (last path)) queue visited of
           (queue', visited') \<Rightarrow> bfsLoop verseMap end_v queue' visited'))"
  by pat_completeness auto
termination
proof (relation "measures [\<lambda>(vm, e, q, V). card (allRefs vm q - V), \<lambda>(vm, e, q, V). length q]")
  show "wf (measures [\<lambda>(vm, e, q, V). card (allRefs vm q - V), \<lambda>(vm, e, q, V). length q])"
    by simp
next
  fix verseMap :: "(string \<times> verse) list" and end_v :: verse and path queue and visited :: "string set"
  have "card (allRefs verseMap queue - visited) \<le> card (allRefs verseMap (path # queue) - visited)"
    by (intro card_mono) (use allRefs_tl in \<open>auto simp: finite_allRefs\<close>)
  then show "((verseMap, end_v, queue, visited), (verseMap, end_v, path # queue, visited))
      \<in> measures [\<lambda>(vm, e, q, V). card (allRefs vm q - V), \<lambda>(vm, e, q, V). length q]"
    by (intro measures_lesseq measures_less) auto
next
  fix verseMap :: "(string \<times> verse) list" and end_v :: verse and path queue and visited :: "string set"
    and xa ya
  assume ne: "path \<noteq> []"
    and vr: "(xa, ya) = visitRefs verseMap path (refs (last path)) queue visited"
  let ?rs = "refs (last path)"
  have xa: "xa = queue @ map (\<lambda>v. path @ [v]) (newVerses verseMap ?rs visited)"
    and ya: "ya = visited \<union> set ?rs"
    using vr by (simp_all add: visitRefs_eq)
  have sub: "allRefs verseMap xa \<subseteq> allRefs verseMap (path # queue)"
    unfolding xa by (rule allRefs_visit)
  show "((verseMap, end_v, xa, ya), (verseMap, end_v, path # queue, visited))
      \<in> measures [\<lambda>(vm, e, q, V). card (allRefs vm q - V), \<lambda>(vm, e, q, V). length q]"
  proof (cases "set ?rs \<subseteq> visited")
    case True
    then have "xa = queue" "ya = visited"
      unfolding xa ya by (auto simp: newVerses_Nil)
    moreover have "card (allRefs verseMap queue - visited) \<le> card (allRefs verseMap (path # queue) - visited)"
      by (intro card_mono) (use allRefs_tl in \<open>auto simp: finite_allRefs\<close>)
    ultimately show ?thesis
      by (intro measures_lesseq measures_less) auto
  next
    case False
    then obtain r where r: "r \<in> set ?rs" "r \<notin> visited" by auto
    have "last path \<in> set path" using ne by simp
    then have rin: "r \<in> allRefs verseMap (path # queue)"
      using r(1) by (auto simp: allRefs_def)
    have "allRefs verseMap xa - ya \<subset> allRefs verseMap (path # queue) - visited"
      using sub r rin unfolding ya by auto
    then have "card (allRefs verseMap xa - ya) < card (allRefs verseMap (path # queue) - visited)"
      by (intro psubset_card_mono) (auto simp: finite_allRefs)
    then show ?thesis
      by (intro measures_less) auto
  qed
qed

definition findShortestPath ::
  "verse \<Rightarrow> verse \<Rightarrow> (string \<times> verse) list \<Rightarrow> error + verse list option" where
  "findShortestPath start end_v verseMap = bfsLoop verseMap end_v [[start]] {id_v start}"

text \<open>
  Paths of the graph: consecutive verses \<open>u\<close>, \<open>w\<close> such that \<open>u\<close> lists the id of \<open>w\<close>
  and the verse map resolves that id to \<open>w\<close>. A path of \<open>n\<close> verses has \<open>n - 1\<close> hops.
\<close>

fun validPath :: "(string \<times> verse) list \<Rightarrow> verse list \<Rightarrow> bool" where
  "validPath vm [] = False"
| "validPath vm [v] = True"
| "validPath vm (u # w # rest) =
     (id_v w \<in> set (refs u) \<and> Map_get vm (id_v w) = Some w \<and> validPath vm (w # rest))"

definition pathFrom :: "(string \<times> verse) list \<Rightarrow> verse \<Rightarrow> verse list \<Rightarrow> bool" where
  "pathFrom vm start p = (validPath vm p \<and> hd p = start)"

definition hops :: "verse list \<Rightarrow> nat" where
  "hops p = length p - 1"

text \<open>
  The invariant of the search loop for target id \<open>t\<close>: queued paths are paths from the
  start, ordered by length and at most one longer than the first; a visited node is the
  end of a queued path or has all its references visited; a queued path is a shortest
  path to its end; a visited node that is not queued is not the target. \<open>bfsPost\<close> is
  what the loop then returns.
\<close>

definition keysAreIds :: "(string \<times> verse) list \<Rightarrow> bool" where
  "keysAreIds vm = (\<forall>k v. Map_get vm k = Some v \<longrightarrow> id_v v = k)"

definition bfsInv ::
  "(string \<times> verse) list \<Rightarrow> verse \<Rightarrow> string \<Rightarrow> verse list list \<Rightarrow> string set \<Rightarrow> bool" where
  "bfsInv vm start t Q V =
     ((\<forall>q \<in> set Q. pathFrom vm start q) \<and>
      sorted (map length Q) \<and> (\<forall>q \<in> set Q. length q \<le> length (hd Q) + 1) \<and>
      (\<forall>u. Map_get vm (id_v u) = Some u \<and> id_v u \<in> V \<longrightarrow>
           (\<exists>q \<in> set Q. last q = u) \<or> set (refs u) \<subseteq> V) \<and>
      (\<forall>q \<in> set Q. \<forall>r. pathFrom vm start r \<and> last r = last q \<longrightarrow> length q \<le> length r) \<and>
      (\<forall>u. Map_get vm (id_v u) = Some u \<and> id_v u \<in> V \<and> (\<forall>q \<in> set Q. last q \<noteq> u)
           \<longrightarrow> id_v u \<noteq> t) \<and>
      id_v start \<in> V)"

definition bfsPost ::
  "(string \<times> verse) list \<Rightarrow> verse \<Rightarrow> verse \<Rightarrow> error + verse list option \<Rightarrow> bool" where
  "bfsPost vm start end_v res =
     (case res of
        Inl err \<Rightarrow> False
      | Inr None \<Rightarrow>
          (\<forall>r. pathFrom vm start r \<and> id_v (last r) = id_v end_v \<longrightarrow> maxDepth < length r)
      | Inr (Some p) \<Rightarrow>
          pathFrom vm start p \<and> id_v (last p) = id_v end_v \<and> length p \<le> maxDepth \<and>
          (\<forall>r. pathFrom vm start r \<and> id_v (last r) = id_v end_v \<longrightarrow> length p \<le> length r))"

section \<open>Betweenness centrality (sampled)\<close>

text \<open>
  \<open>Math.random()\<close> is an input of the model: \<open>rnd k\<close> is the outcome of the \<open>k\<close>-th call
  made during one run. \<open>verses[Math.floor(Math.random() * verses.length)]\<close> is
  \<open>undefined\<close> for an index outside the array; the product is rounded like every
  product.
\<close>

definition randomVerse :: "verse list \<Rightarrow> rat \<Rightarrow> verse option" where
  "randomVerse verses r =
     (let i = \<lfloor>roundDouble (r * of_nat (length verses))\<rfloor>
      in if 0 \<le> i \<and> i < int (length verses) then Some (verses ! nat i) else None)"

text \<open>The loop over \<open>j = 1 .. path.length - 2\<close>: one more for every interior verse.\<close>

definition bumpInterior :: "(string \<times> nat) list \<Rightarrow> verse list \<Rightarrow> (string \<times> nat) list" where
  "bumpInterior btw path =
     foldl (\<lambda>b v. Map_set b (id_v v)
                     ((case Map_get b (id_v v) of Some current \<Rightarrow> current | None \<Rightarrow> 0) + 1))
       btw (butlast (tl path))"

text \<open>\<open>if (path && path.length > 2) { foundPaths++; ... }\<close>\<close>

fun recordPath ::
  "(string \<times> nat) list \<times> nat \<Rightarrow> verse list option \<Rightarrow> (string \<times> nat) list \<times> nat" where
  "recordPath (btw, foundPaths) None = (btw, foundPaths)"
| "recordPath (btw, foundPaths) (Some path) =
     (if length path > 2 then (bumpInterior btw path, foundPaths + 1) else (btw, foundPaths))"

text \<open>
  The sampling loop, from iteration \<open>i\<close> on. Iteration \<open>i\<close> draws its source with the call
  number \<open>2 i\<close> and its target with the call number \<open>2 i + 1\<close>. Reading \<open>.id\<close> of an
  \<open>undefined\<close> draw throws.
\<close>

function sampleLoop ::
  "verse list \<Rightarrow> (string \<times> verse) list \<Rightarrow> (nat \<Rightarrow> rat) \<Rightarrow> int \<Rightarrow> nat
     \<Rightarrow> (string \<times> nat) list \<times> nat \<Rightarrow> error + (string \<times> nat) list \<times> nat" where
  "sampleLoop verses verseMap rnd sample i acc =
     (if int i < sample then
        (case (randomVerse verses (rnd (2 * i)), randomVerse verses (rnd (2 * i + 1))) of
           (Some source, Some target) \<Rightarrow>
             if id_v source = id_v target
             then sampleLoop verses verseMap rnd sample (i + 1) acc
             else
               (case findShortestPath source target verseMap of
                  Inl err \<Rightarrow> Inl err
                | Inr path \<Rightarrow>
                    sampleLoop verses verseMap rnd sample (i + 1) (recordPath acc path))
         | _ \<Rightarrow> Inl TypeError)
      else Inr acc)"
  by pat_completeness auto
termination
  by (relation "measure (\<lambda>(verses, verseMap, rnd, sample, i, acc). nat sample - i)") auto

declare sampleLoop.simps [simp del]

text \<open>\<open>betweenness.get(verse.id) || 0\<close>\<close>

definition accumulated :: "(string \<times> nat) list \<Rightarrow> verse \<Rightarrow> nat" where
  "accumulated btw v = (case Map_get btw (id_v v) of Some n \<Rightarrow> n | None \<Rightarrow> 0)"

text \<open>The function mapped over the verses to build the score records.\<close>

definition betweennessEntryOf :: "(string \<times> nat) list \<Rightarrow> jsnum \<Rightarrow> verse \<Rightarrow> betweennessEntry" where
  "betweennessEntryOf btw maxBetweenness v =
     verse.extend v
       (betweennessEntry.fields
          (js_div (of_count (accumulated btw v)) maxBetweenness) (accumulated btw v))"

text \<open>
  The body of \<open>calculateBetweennessCentrality\<close> behind the cache test. The argument
  \<open>sampleSize\<close> is \<open>None\<close> when the caller leaves it out; the default is 200.
\<close>

definition computeBetweenness ::
  "verse list \<Rightarrow> int option \<Rightarrow> (nat \<Rightarrow> rat) \<Rightarrow> error + betweennessEntry list" where
  "computeBetweenness verses sampleSize rnd =
     (let verseMap = verseMap_of verses;
          btw0 = new_Map (map (\<lambda>v. (id_v v, 0)) verses);
          sample = min (case sampleSize of None \<Rightarrow> 200 | Some s \<Rightarrow> s) (int (length verses))
      in case sampleLoop verses verseMap rnd sample 0 (btw0, 0) of
           Inl err \<Rightarrow> Inl err
         | Inr (btw, foundPaths) \<Rightarrow>
             (let maxBetweenness = js_or (Math_max (map of_count (Map_values btw))) (Num 1);
                  scores = map (betweennessEntryOf btw maxBetweenness) verses
              in Inr (js_sort (\<lambda>a b. js_sub (betweennessCentrality b) (betweennessCentrality a))
                        scores)))"

definition calculateBetweennessCentrality ::
  "statsCache \<Rightarrow> verse list \<Rightarrow> int option \<Rightarrow> (nat \<Rightarrow> rat)
     \<Rightarrow> (error + betweennessEntry list) \<times> statsCache" where
  "calculateBetweennessCentrality c verses sampleSize rnd =
     (case betweenness c of
        Some cached \<Rightarrow> (Inr cached, c)
      | None \<Rightarrow>
          (case computeBetweenness verses sampleSize rnd of
             Inl err \<Rightarrow> (Inl err, c)
           | Inr sorted_v \<Rightarrow> (Inr sorted_v, c\<lparr>betweenness := Some sorted_v\<rparr>)))"

text \<open>
  The largest accumulator among the returned score records (0 when there is none), and a
  sequence of \<open>Math.random()\<close> outcomes that draws verse 0, then verse 3 of four verses
  (verse 2 of three), and one that draws verse 0, then verse 1 of three verses.
\<close>

definition maxAccumulator :: "betweennessEntry list \<Rightarrow> nat" where
  "maxAccumulator scores = Max (insert 0 (betweennessScore ` set scores))"

definition sampleAD :: "nat \<Rightarrow> rat" where
  "sampleAD k = (if k = 1 then 3 / 4 else 0)"

definition sampleAB :: "nat \<Rightarrow> rat" where
  "sampleAB k = (if k = 1 then 1 / 2 else 0)"

text \<open>
  The specification's sampling, stated without the accumulator map. \<open>sampledPath\<close> is
  the path discovered for the \<open>k\<close>-th drawn pair: there is none when the two draws have
  the same id or the path finder finds no path. \<open>sampledPaths\<close> lists the paths
  discovered by the \<open>min(sampleSize, verses.length)\<close> draws of a run. The strictly
  interior verses of a path are those at the positions \<open>1, ..., length - 2\<close>, and
  \<open>interiorCount paths k\<close> is the number of times a verse with id \<open>k\<close> is strictly
  inside one of the paths.
\<close>

definition sampledPath :: "verse list \<Rightarrow> (nat \<Rightarrow> rat) \<Rightarrow> nat \<Rightarrow> verse list option" where
  "sampledPath verses rnd k =
     (case (randomVerse verses (rnd (2 * k)), randomVerse verses (rnd (2 * k + 1))) of
        (Some source, Some target) \<Rightarrow>
          if id_v source = id_v target then None
          else (case findShortestPath source target (verseMap_of verses) of
                  Inr (Some p) \<Rightarrow> Some p
                | _ \<Rightarrow> None)
      | _ \<Rightarrow> None)"

definition sampledPaths :: "verse list \<Rightarrow> int option \<Rightarrow> (nat \<Rightarrow> rat) \<Rightarrow> verse list list" where
  "sampledPaths verses sampleSize rnd =
     List.map_filter (sampledPath verses rnd)
       [0 ..< nat (min (case sampleSize of None \<Rightarrow> 200 | Some s \<Rightarrow> s) (int (length verses)))]"

definition interior :: "verse list \<Rightarrow> verse list" where
  "interior p = map (\<lambda>j. p ! j) [1 ..< length p - 1]"

definition interiorCount :: "verse list list \<Rightarrow> string \<Rightarrow> nat" where
  "interiorCount paths k = length (filter (\<lambda>v. id_v v = k) (concat (map interior paths)))"

section \<open>Hub identification\<close>

text \<open>Mapping a function that may throw over an array: the first throw ends the map.\<close>

fun mapE :: "('a \<Rightarrow> error + 'b) \<Rightarrow> 'a list \<Rightarrow> error + 'b list" where
  "mapE f [] = Inr []"
| "mapE f (a # as) =
     (case f a of
        Inl err \<Rightarrow> Inl err
      | Inr b \<Rightarrow> (case mapE f as of Inl err \<Rightarrow> Inl err | Inr bs \<Rightarrow> Inr (b # bs)))"

text \<open>
  The score of one verse. \<open>find\<close> returns \<open>undefined\<close> when the (possibly cached) score
  lists hold no entry with the id of the verse, and reading a field of it throws. The
  difference and the product are rounded to doubles like the two quotients they are
  made of, and this rounding decides which hub scores tie (\<open>hubScore_rounding\<close> below).
\<close>

definition hubScoreOf ::
  "centralityEntry list \<Rightarrow> clusteringEntry list \<Rightarrow> verse \<Rightarrow> error + hubEntry" where
  "hubScoreOf centralityData clusteringData v =
     (case find (\<lambda>e. id_v e = id_v v) centralityData of
        None \<Rightarrow> Inl TypeError
      | Some cd \<Rightarrow>
          (case find (\<lambda>e. id_v e = id_v v) clusteringData of
             None \<Rightarrow> Inl TypeError
           | Some cl \<Rightarrow>
               Inr (verse.extend v
                      (hubEntry.fields
                         (js_mul (degreeCentrality cd) (js_sub (Num 1) (clusteringCoefficient cl)))
                         False))))"

text \<open>\<open>for (let i = 0; i < Math.min(topN, sorted.length); i++) sorted[i].isHub = true\<close>\<close>

definition markHubs :: "int \<Rightarrow> hubEntry list \<Rightarrow> hubEntry list" where
  "markHubs topN sorted_v =
     (let n = nat (min topN (int (length sorted_v)))
      in map (\<lambda>h. h\<lparr>isHub := True\<rparr>) (take n sorted_v) @ drop n sorted_v)"

text \<open>\<open>topN\<close> is \<open>None\<close> when the caller leaves it out; the default is 50.\<close>

definition identifyHubs ::
  "statsCache \<Rightarrow> verse list \<Rightarrow> int option \<Rightarrow> (error + hubEntry list) \<times> statsCache" where
  "identifyHubs c verses topN =
     (case hubs c of
        Some cached \<Rightarrow> (Inr cached, c)
      | None \<Rightarrow>
          (case calculateDegreeCentrality c verses of
             (centralityData, c1) \<Rightarrow>
               (case calculateClusteringCoefficient c1 verses of
                  (clusteringData, c2) \<Rightarrow>
                    (case mapE (hubScoreOf centralityData clusteringData) verses of
                       Inl err \<Rightarrow> (Inl err, c2)
                     | Inr hubScores \<Rightarrow>
                         (let sorted_v = markHubs (case topN of None \<Rightarrow> 50 | Some n \<Rightarrow> n)
                                (js_sort (\<lambda>a b. js_sub (hubScore b) (hubScore a)) hubScores)
                          in (Inr sorted_v, c2\<lparr>hubs := Some sorted_v\<rparr>))))))"

section \<open>Community detection\<close>

text \<open>
  \<open>labels.get(id)\<close>: the label stored for the id, \<open>undefined\<close> when there is none. A
  label is truthy when it is defined and not the empty string.
\<close>

definition getLabel :: "(string \<times> string option) list \<Rightarrow> string \<Rightarrow> string option" where
  "getLabel lbls k = (case Map_get lbls k of Some l \<Rightarrow> l | None \<Rightarrow> None)"

text \<open>The tally of the labels of the references of one verse.\<close>

definition countLabels :: "(string \<times> string option) list \<Rightarrow> string list \<Rightarrow> (string \<times> nat) list" where
  "countLabels lbls rs =
     foldl (\<lambda>labelCounts refId.
              case getLabel lbls refId of
                None \<Rightarrow> labelCounts
              | Some l \<Rightarrow>
                  if l \<noteq> [] then
                    Map_set labelCounts l
                      ((case Map_get labelCounts l of Some n \<Rightarrow> n | None \<Rightarrow> 0) + 1)
                  else labelCounts)
       [] rs"

text \<open>The most frequent label: a later label wins only with a strictly larger count.\<close>

definition mostCommon :: "(string \<times> nat) list \<Rightarrow> string option \<Rightarrow> string option" where
  "mostCommon labelCounts current =
     snd (foldl (\<lambda>(maxCount, maxLabel) (l, n).
                   if n > maxCount then (n, Some l) else (maxCount, maxLabel))
            (0::nat, current) labelCounts)"

text \<open>The body of the loop over the shuffled verses; \<open>changed\<close> counts the relabellings.\<close>

fun updateLabel ::
  "(string \<times> string option) list \<times> nat \<Rightarrow> verse \<Rightarrow> (string \<times> string option) list \<times> nat" where
  "updateLabel (lbls, changed) v =
     (if refCount v = 0 then (lbls, changed)
      else
        (let labelCounts = countLabels lbls (refs v);
             maxLabel = mostCommon labelCounts (getLabel lbls (id_v v))
         in if getLabel lbls (id_v v) \<noteq> maxLabel
            then (Map_set lbls (id_v v) maxLabel, changed + 1)
            else (lbls, changed)))"

text \<open>
  The iterations, from number \<open>iter\<close> on. \<open>shuffle iter verses\<close> is the order in which
  iteration \<open>iter\<close> visits the verses: the outcome of
  \<open>[...verses].sort(() => Math.random() - 0.5)\<close>, an input of the model.
\<close>

function propagate ::
  "verse list \<Rightarrow> (nat \<Rightarrow> verse list \<Rightarrow> verse list) \<Rightarrow> int \<Rightarrow> nat
     \<Rightarrow> (string \<times> string option) list \<Rightarrow> (string \<times> string option) list" where
  "propagate verses shuffle iterations iter lbls =
     (if int iter < iterations then
        (case foldl updateLabel (lbls, 0) (shuffle iter verses) of
           (lbls', changed) \<Rightarrow>
             if changed = 0 then lbls'
             else propagate verses shuffle iterations (iter + 1) lbls')
      else lbls)"
  by pat_completeness auto
termination
  by (relation "measure (\<lambda>(verses, shuffle, iterations, iter, lbls). nat iterations - iter)") auto

declare propagate.simps [simp del]

text \<open>
  Grouping the verses by label. The entry read back by \<open>communities.get(label)\<close> is
  always there, it was created just before when it was missing.
\<close>

definition groupStep ::
  "(string \<times> string option) list \<Rightarrow> (string option \<times> verse list) list \<Rightarrow> verse
     \<Rightarrow> (string option \<times> verse list) list" where
  "groupStep lbls groups v =
     (let l = getLabel lbls (id_v v);
          groups' = (if \<not> Map_has groups l then Map_set groups l [] else groups)
      in Map_set groups' l
           ((case Map_get groups' l of Some members \<Rightarrow> members | None \<Rightarrow> []) @ [v]))"

definition groupByLabel ::
  "(string \<times> string option) list \<Rightarrow> verse list \<Rightarrow> (string option \<times> verse list) list" where
  "groupByLabel lbls verses = foldl (groupStep lbls) [] verses"

text \<open>
  The body of \<open>detectCommunities\<close> behind the cache test. \<open>iterations\<close> is \<open>None\<close> when
  the caller leaves it out; the default is 5.
\<close>

definition computeCommunities ::
  "verse list \<Rightarrow> int option \<Rightarrow> (nat \<Rightarrow> verse list \<Rightarrow> verse list) \<Rightarrow> communityResult" where
  "computeCommunities verses iterations shuffle =
     (let lbls0 = new_Map (map (\<lambda>v. (id_v v, Some (id_v v))) verses);
          lbls = propagate verses shuffle (case iterations of None \<Rightarrow> 5 | Some n \<Rightarrow> n) 0 lbls0;
          significantCommunities =
            js_sort (\<lambda>a b. js_sub (of_count (length (snd b))) (of_count (length (snd a))))
              (filter (\<lambda>(l, members). length members \<ge> 3) (groupByLabel lbls verses))
      in \<lparr>communityResult.communities = significantCommunities,
          communityCount = length significantCommunities,
          labels = lbls\<rparr>)"

definition detectCommunities ::
  "statsCache \<Rightarrow> verse list \<Rightarrow> int option \<Rightarrow> (nat \<Rightarrow> verse list \<Rightarrow> verse list)
     \<Rightarrow> communityResult \<times> statsCache" where
  "detectCommunities c verses iterations shuffle =
     (case statsCache.communities c of
        Some cached \<Rightarrow> (cached, c)
      | None \<Rightarrow>
          (let result = computeCommunities verses iterations shuffle
           in (result, c\<lparr>statsCache.communities := Some result\<rparr>)))"

text \<open>
  The specification's grouping: the verses whose final label is \<open>l\<close>, in input order.
  \<open>labelsOk\<close> is the invariant of the label map (every stored label is defined, every
  verse id has an entry, one entry per id). \<open>inputOrder\<close> is the visiting order that
  leaves the verses as they come.
\<close>

definition labelGroup :: "(string \<times> string option) list \<Rightarrow> verse list \<Rightarrow> string option \<Rightarrow> verse list" where
  "labelGroup lbls verses l = filter (\<lambda>v. getLabel lbls (id_v v) = l) verses"

definition labelsOk :: "verse list \<Rightarrow> (string \<times> string option) list \<Rightarrow> bool" where
  "labelsOk verses lbls =
     ((\<forall>(k, l) \<in> set lbls. l \<noteq> None) \<and> id_v ` set verses \<subseteq> fst ` set lbls \<and>
      distinct (map fst lbls))"

definition inputOrder :: "nat \<Rightarrow> verse list \<Rightarrow> verse list" where
  "inputOrder iter verses = verses"

section \<open>Network statistics and the composite report\<close>

definition index :: "'a list \<Rightarrow> nat \<Rightarrow> 'a option" where
  "index xs i = (if i < length xs then Some (xs ! i) else None)"

definition getNetworkStatistics ::
  "statsCache \<Rightarrow> verse list \<Rightarrow> networkStatistics \<times> statsCache" where
  "getNetworkStatistics c verses =
     (let totalRefs = foldl (\<lambda>sum v. sum + refCount v) 0 verses;
          avgRefs = js_div (of_count totalRefs) (of_count (length verses));
          refCounts = js_sort (\<lambda>a b. js_sub (of_count b) (of_count a)) (map refCount verses);
          medianRefs = index refCounts (length refCounts div 2);
          maxRefs = index refCounts 0
      in case calculateDegreeCentrality c verses of
           (centralityData, c') \<Rightarrow>
             (let top = take 10 centralityData;
                  possibleConnections =
                    js_div (js_mul (of_count (length verses))
                              (js_sub (of_count (length verses)) (Num 1))) (Num 2);
                  actualConnections = js_div (of_count totalRefs) (Num 2);
                  dens = js_div actualConnections possibleConnections
              in (\<lparr>nodeCount = length verses,
                   edgeCount = totalRefs,
                   avgDegree = avgRefs,
                   medianDegree = medianRefs,
                   maxDegree = maxRefs,
                   density = js_mul dens (Num 100),
                   topVerses =
                     map (\<lambda>v. \<lparr>verse_t = verse v, refs_t = refCount v,
                                 centrality_t = degreeCentrality v\<rparr>) (take 10 top)\<rparr>,
                  c')))"

text \<open>
  \<open>computeAllStats\<close>: the parts are computed in the order of the object literal; a throw
  in one of them ends the call with the cache as it then is. \<open>now\<close> is the value of
  \<open>new Date()\<close>.
\<close>

definition computeAllStats ::
  "statsCache \<Rightarrow> verse list \<Rightarrow> (nat \<Rightarrow> rat) \<Rightarrow> (nat \<Rightarrow> verse list \<Rightarrow> verse list) \<Rightarrow> nat
     \<Rightarrow> (error + allStats) \<times> statsCache" where
  "computeAllStats c verses rnd shuffle now =
     (case getNetworkStatistics c verses of
        (net, c1) \<Rightarrow>
     (case calculateDegreeCentrality c1 verses of
        (cen, c2) \<Rightarrow>
     (case calculateBetweennessCentrality c2 verses (Some 200) rnd of
        (Inl err, c3) \<Rightarrow> (Inl err, c3)
      | (Inr btw, c3) \<Rightarrow>
     (case calculateClusteringCoefficient c3 verses of
        (clu, c4) \<Rightarrow>
     (case identifyHubs c4 verses (Some 30) of
        (Inl err, c5) \<Rightarrow> (Inl err, c5)
      | (Inr hs, c5) \<Rightarrow>
     (case detectCommunities c5 verses (Some 5) shuffle of
        (com, c6) \<Rightarrow>
          (Inr \<lparr>network = net,
                allStats.centrality = take 20 cen,
                allStats.betweenness = take 20 btw,
                allStats.clustering = take 20 clu,
                allStats.hubs = filter isHub hs,
                allStats.communities = com\<rparr>,
           c6\<lparr>lastComputed := Some now\<rparr>)))))))"

section \<open>The cache across calls\<close>

text \<open>
  The calls of the module's public interface that touch the cache, and the cache after
  one of them. \<open>slotsKept c c'\<close>: every result slot that is filled in \<open>c\<close> holds the same
  result in \<open>c'\<close>.
\<close>

datatype apiCall =
    CalculateDegreeCentrality "verse list"
  | CalculateBetweennessCentrality "verse list" "int option" "nat \<Rightarrow> rat"
  | CalculateClusteringCoefficient "verse list"
  | IdentifyHubs "verse list" "int option"
  | DetectCommunities "verse list" "int option" "nat \<Rightarrow> verse list \<Rightarrow> verse list"
  | GetNetworkStatistics "verse list"
  | ComputeAllStats "verse list" "nat \<Rightarrow> rat" "nat \<Rightarrow> verse list \<Rightarrow> verse list" nat
  | ClearCache

fun afterCall :: "statsCache \<Rightarrow> apiCall \<Rightarrow> statsCache" where
  "afterCall c (CalculateDegreeCentrality verses) = snd (calculateDegreeCentrality c verses)"
| "afterCall c (CalculateBetweennessCentrality verses sampleSize rnd) =
     snd (calculateBetweennessCentrality c verses sampleSize rnd)"
| "afterCall c (CalculateClusteringCoefficient verses) =
     snd (calculateClusteringCoefficient c verses)"
| "afterCall c (IdentifyHubs verses topN) = snd (identifyHubs c verses topN)"
| "afterCall c (DetectCommunities verses iterations shuffle) =
     snd (detectCommunities c verses iterations shuffle)"
| "afterCall c (GetNetworkStatistics verses) = snd (getNetworkStatistics c verses)"
| "afterCall c (ComputeAllStats verses rnd shuffle now) =
     snd (computeAllStats c verses rnd shuffle now)"
| "afterCall c ClearCache = clearCache c"

definition slotsKept :: "statsCache \<Rightarrow> statsCache \<Rightarrow> bool" where
  "slotsKept c c' =
     ((statsCache.centrality c \<noteq> None \<longrightarrow> statsCache.centrality c' = statsCache.centrality c) \<and>
      (statsCache.betweenness c \<noteq> None \<longrightarrow> statsCache.betweenness c' = statsCache.betweenness c) \<and>
      (statsCache.clustering c \<noteq> None \<longrightarrow> statsCache.clustering c' = statsCache.clustering c) \<and>
      (statsCache.communities c \<noteq> None \<longrightarrow> statsCache.communities c' = statsCache.communities c) \<and>
      (statsCache.hubs c \<noteq> None \<longrightarrow> statsCache.hubs c' = statsCache.hubs c))"

section \<open>Graphs with and without dangling references\<close>

text \<open>
  A reference is resolvable when it is the id of a verse of the list. \<open>dropDangling\<close>
  removes the other references from a verse (\<open>refCount\<close>, cached when the verse was
  built, stays). \<open>pathIds\<close> reads the ids off a search result. \<open>onValues\<close> applies a
  function to the value of a map entry. \<open>sameResolved\<close> relates the visited sets of a
  search on the graph and on the graph without dangling references; \<open>keysIn\<close> says that
  a label map has entries for verse ids only.
\<close>

definition resolvable :: "verse list \<Rightarrow> string \<Rightarrow> bool" where
  "resolvable verses r = (r \<in> id_v ` set verses)"

definition dropDangling :: "verse list \<Rightarrow> verse \<Rightarrow> verse" where
  "dropDangling verses v = v\<lparr>refs := filter (resolvable verses) (refs v)\<rparr>"

definition pathIds :: "error + verse list option \<Rightarrow> error + string list option" where
  "pathIds res = map_sum (\<lambda>e. e) (map_option (map id_v)) res"

definition onValues :: "('a \<Rightarrow> 'b) \<Rightarrow> 'k \<times> 'a \<Rightarrow> 'k \<times> 'b" where
  "onValues g e = (fst e, g (snd e))"

definition sameResolved :: "verse list \<Rightarrow> string set \<Rightarrow> string set \<Rightarrow> bool" where
  "sameResolved verses V V' = (V' \<subseteq> V \<and> (\<forall>r \<in> V. resolvable verses r \<longrightarrow> r \<in> V'))"

definition keysIn :: "verse list \<Rightarrow> (string \<times> string option) list \<Rightarrow> bool" where
  "keysIn verses lbls = (fst ` set lbls \<subseteq> id_v ` set verses)"

section \<open>Example graphs\<close>

text \<open>The fully connected graph on four verses: each lists the three others.\<close>

definition completeGraph4 :: "verse list" where
  "completeGraph4 =
     [processData ''1'' ''GEN 1 1'' [''2'', ''3'', ''4''],
      processData ''2'' ''GEN 1 2'' [''1'', ''3'', ''4''],
      processData ''3'' ''GEN 1 3'' [''1'', ''2'', ''4''],
      processData ''4'' ''GEN 1 4'' [''1'', ''2'', ''3'']]"

text \<open>
  The chain A - B - C - D, the chain A - B - C and a chain of seven verses, each linked
  both ways.
\<close>

definition chain4 :: "verse list" where
  "chain4 =
     [processData ''A'' ''GEN 1 1'' [''B''],
      processData ''B'' ''GEN 1 2'' [''A'', ''C''],
      processData ''C'' ''GEN 1 3'' [''B'', ''D''],
      processData ''D'' ''GEN 1 4'' [''C'']]"

definition chain3 :: "verse list" where
  "chain3 =
     [processData ''A'' ''GEN 1 1'' [''B''],
      processData ''B'' ''GEN 1 2'' [''A'', ''C''],
      processData ''C'' ''GEN 1 3'' [''B'']]"

definition chain7 :: "verse list" where
  "chain7 =
     [processData ''1'' ''GEN 1 1'' [''2''],
      processData ''2'' ''GEN 1 2'' [''1'', ''3''],
      processData ''3'' ''GEN 1 3'' [''2'', ''4''],
      processData ''4'' ''GEN 1 4'' [''3'', ''5''],
      processData ''5'' ''GEN 1 5'' [''4'', ''6''],
      processData ''6'' ''GEN 1 6'' [''5'', ''7''],
      processData ''7'' ''GEN 1 7'' [''6'']]"

text \<open>A single verse without references.\<close>

definition isolated1 :: "verse list" where
  "isolated1 = [processData ''1'' ''GEN 1 1'' []]"

text \<open>Four verses whose reference lists also name the ids X, Y, Z and W of no verse.\<close>

definition danglingGraph :: "verse list" where
  "danglingGraph =
     [processData ''A'' ''GEN 1 1'' [''X'', ''B'', ''C''],
      processData ''B'' ''GEN 1 2'' [''A'', ''Y'', ''C''],
      processData ''C'' ''GEN 1 3'' [''B'', ''A'', ''D'', ''Z''],
      processData ''D'' ''GEN 1 4'' [''W'', ''C'']]"

section \<open>Basic facts\<close>

text \<open>Rounding to a double: the exponent brackets the number, and rounding keeps signs.\<close>

lemma pow2_powi: "pow2 e = 2 powi e"
  by (simp add: pow2_def power_int_def inverse_eq_divide power_divide)

lemma pow2_pos [simp]: "0 < pow2 e"
  by (simp add: pow2_def)

lemma pow2_add: "pow2 (a + b) = pow2 a * pow2 b"
  by (simp add: pow2_powi power_int_add)

lemma pow2_mono: "a \<le> b \<Longrightarrow> pow2 a \<le> pow2 b"
  by (simp add: pow2_powi power_int_increasing)

lemma pow2_nat: "0 \<le> e \<Longrightarrow> pow2 e = 2 ^ nat e"
  by (simp add: pow2_def)

lemma binaryExponent_bounds:
  assumes "0 < q"
  shows "pow2 (binaryExponent q) \<le> q \<and> q < pow2 (binaryExponent q + 1)"
proof -
  obtain a b where ab: "quotient_of q = (a, b)" by (cases "quotient_of q")
  have bpos: "0 < b" using quotient_of_denom_pos[OF ab] .
  have q: "q = of_int a / of_int b" using quotient_of_div[OF ab] .
  have apos: "0 < a" using assms bpos q by (simp add: zero_less_divide_iff)
  define la where "la = bitlen a"
  define lb where "lb = bitlen b"
  have la1: "1 \<le> la" using apos bitlen_eq_zero_iff[of a] bitlen_nonneg[of a] by (simp add: la_def) 
  have lb1: "1 \<le> lb" using bpos bitlen_eq_zero_iff[of b] bitlen_nonneg[of b] by (simp add: lb_def) 
  have ba: "2 ^ nat (la - 1) \<le> a \<and> a < 2 ^ nat la" using bitlen_bounds[OF apos] by (simp add: la_def)
  have bb: "2 ^ nat (lb - 1) \<le> b \<and> b < 2 ^ nat lb" using bitlen_bounds[OF bpos] by (simp add: lb_def)
  have ra: "pow2 (la - 1) \<le> of_int a \<and> of_int a < pow2 la"
  proof -
    have "(of_int (2 ^ nat (la - 1)) :: rat) \<le> of_int a" using ba by (simp only: of_int_le_iff)
    moreover have "(of_int a :: rat) < of_int (2 ^ nat la)" using ba by (simp only: of_int_less_iff)
    ultimately show ?thesis using la1 by (simp add: pow2_nat)
  qed
  have rb: "pow2 (lb - 1) \<le> of_int b \<and> of_int b < pow2 lb"
  proof -
    have "(of_int (2 ^ nat (lb - 1)) :: rat) \<le> of_int b" using bb by (simp only: of_int_le_iff)
    moreover have "(of_int b :: rat) < of_int (2 ^ nat lb)" using bb by (simp only: of_int_less_iff)
    ultimately show ?thesis using lb1 by (simp add: pow2_nat)
  qed
  have bq: "of_int a = q * of_int b" using q bpos by simp
  have up: "q < pow2 (la - lb + 1)"
  proof -
    have "q * pow2 (lb - 1) \<le> q * of_int b" using rb assms by simp
    also have "\<dots> < pow2 la" using ra bq by simp
    also have "pow2 la = pow2 (la - lb + 1) * pow2 (lb - 1)" by (simp add: pow2_add [symmetric])
    finally show ?thesis by simp
  qed
  have lo: "pow2 (la - lb - 1) < q"
  proof -
    have "pow2 (la - lb - 1) * pow2 lb = pow2 (la - 1)" by (simp add: pow2_add [symmetric])
    also have "\<dots> \<le> q * of_int b" using ra bq by simp
    also have "\<dots> < q * pow2 lb" using rb assms by simp
    finally show ?thesis by simp
  qed
  show ?thesis
  proof (cases "pow2 (la - lb) \<le> q")
    case True
    then have "binaryExponent q = la - lb" by (simp add: binaryExponent_def ab la_def lb_def)
    then show ?thesis using True up by simp
  next
    case False
    then have "binaryExponent q = la - lb - 1" by (simp add: binaryExponent_def ab la_def lb_def)
    then show ?thesis using False lo by simp
  qed
qed

lemma roundHalfEven_ge: "of_int n \<le> x \<Longrightarrow> n \<le> roundHalfEven x"
  unfolding roundHalfEven_def Let_def using le_floor_iff[of n x] by auto

lemma roundHalfEven_le: "x \<le> of_int n \<Longrightarrow> roundHalfEven x \<le> n"
proof -
  assume a: "x \<le> of_int n"
  have f: "\<lfloor>x\<rfloor> \<le> n" using a by (simp add: floor_le_iff) 
  show ?thesis
  proof (cases "\<lfloor>x\<rfloor> = n")
    case True
    then have "x - of_int \<lfloor>x\<rfloor> \<le> 0" using a by simp
    then show ?thesis using True by (simp add: roundHalfEven_def Let_def)
  next
    case False
    then have "\<lfloor>x\<rfloor> + 1 \<le> n" using f by simp
    then show ?thesis using f by (simp add: roundHalfEven_def Let_def)
  qed
qed

lemma roundDouble_zero [simp]: "roundDouble 0 = 0"
  by (simp add: roundDouble_def)

lemma roundDouble_one [simp]: "roundDouble 1 = 1"
  by code_simp

lemma roundDouble_minus: "roundDouble (- q) = - roundDouble q"
  by (simp add: roundDouble_def Let_def)

lemma roundDouble_pos: 
  assumes "0 < q" shows "0 < roundDouble q"
proof -
  define e where "e = binaryExponent q"
  define u where "u = pow2 (e - 52)"
  have b: "pow2 e \<le> q" using binaryExponent_bounds[OF assms] by (simp add: e_def)
  have "pow2 e = pow2 52 * u" by (simp add: u_def pow2_add [symmetric])
  then have "pow2 52 \<le> q / u" using b by (simp add: u_def pos_le_divide_eq mult.commute)
  moreover have "pow2 52 = of_int (2 ^ 52)" by (simp add: pow2_def)
  ultimately have "of_int (2 ^ 52) \<le> q / u" by simp
  then have "2 ^ 52 \<le> roundHalfEven (q / u)" by (rule roundHalfEven_ge)
  then have "0 < roundHalfEven (q / u)" by simp
  then have "0 < of_int (roundHalfEven (q / u)) * u" by (simp add: u_def)
  then show ?thesis using assms by (simp add: roundDouble_def Let_def e_def u_def)
qed

lemma roundDouble_pos_iff: "0 < roundDouble q \<longleftrightarrow> 0 < q"
proof (cases "0 < q")
  case True then show ?thesis using roundDouble_pos by simp
next
  case False
  then have "0 \<le> - q" by simp
  then have "0 \<le> roundDouble (- q)" using roundDouble_pos[of "- q"] by (cases "q = 0") auto
  then show ?thesis using False by (simp add: roundDouble_minus)
qed

lemma roundDouble_nonneg: "0 \<le> q \<Longrightarrow> 0 \<le> roundDouble q"
  using roundDouble_pos[of q] by (cases "q = 0") auto

lemma roundDouble_le_one:
  assumes "0 \<le> q" "q \<le> 1" shows "roundDouble q \<le> 1"
proof (cases "q = 0 \<or> q = 1")
  case True then show ?thesis by auto
next
  case False
  then have q: "0 < q" "q < 1" using assms by auto
  define e where "e = binaryExponent q"
  define u where "u = pow2 (e - 52)"
  have b: "pow2 e \<le> q" "q < pow2 (e + 1)" using binaryExponent_bounds[OF q(1)] by (simp_all add: e_def)
  have "e < 0"
  proof (rule ccontr)
    assume "\<not> e < 0"
    then have "pow2 0 \<le> pow2 e" by (intro pow2_mono) simp
    then show False using b q by (simp add: pow2_def)
  qed
  have "pow2 53 * u = pow2 (53 + (e - 52))" unfolding u_def by (rule pow2_add [symmetric])
  then have "pow2 (e + 1) = pow2 53 * u" by (simp add: add.commute)
  then have "q / u \<le> pow2 53" using b by (simp add: u_def pos_divide_le_eq mult.commute)
  moreover have "pow2 53 = of_int (2 ^ 53)" by (simp add: pow2_def)
  ultimately have "q / u \<le> of_int (2 ^ 53)" by simp
  then have "roundHalfEven (q / u) \<le> 2 ^ 53" by (rule roundHalfEven_le)
  then have "(of_int (roundHalfEven (q / u)) :: rat) \<le> of_int (2 ^ 53)" by (simp only: of_int_le_iff)
  then have "of_int (roundHalfEven (q / u)) * u \<le> of_int (2 ^ 53) * u"
    by (simp add: u_def)
  also have "of_int (2 ^ 53) * u = pow2 (e + 1)"
    using \<open>pow2 (e + 1) = pow2 53 * u\<close> \<open>pow2 53 = of_int (2 ^ 53)\<close> by simp
  also have "pow2 (e + 1) \<le> pow2 0" using \<open>e < 0\<close> by (intro pow2_mono) simp
  finally have "of_int (roundHalfEven (q / u)) * u \<le> 1" by (simp add: pow2_def)
  then show ?thesis using q by (simp add: roundDouble_def Let_def e_def u_def)
qed


lemma roundHalfEven_upper: "of_int (roundHalfEven x) \<le> x + 1 / 2"
proof -
  show ?thesis
  proof (cases "x - of_int \<lfloor>x\<rfloor> < 1 / 2")
    case True
    then have "roundHalfEven x = \<lfloor>x\<rfloor>" by (simp add: roundHalfEven_def Let_def)
    then show ?thesis using of_int_floor_le[of x] by linarith
  next
    case False
    then have "(of_int (\<lfloor>x\<rfloor> + 1) :: rat) \<le> x + 1 / 2" by simp
    moreover have "roundHalfEven x \<le> \<lfloor>x\<rfloor> + 1" by (simp add: roundHalfEven_def Let_def)
    then have "(of_int (roundHalfEven x) :: rat) \<le> of_int (\<lfloor>x\<rfloor> + 1)" by (simp only: of_int_le_iff)
    ultimately show ?thesis by simp
  qed
qed

text \<open>Rounding raises a positive number by at most the factor \<open>1 + 2 ^ -53\<close>.\<close>

lemma roundDouble_upper:
  assumes "0 < q" shows "roundDouble q \<le> q * (1 + 1 / 2 ^ 53)"
proof -
  define e where "e = binaryExponent q"
  define u where "u = pow2 (e - 52)"
  have upos: "0 < u" by (simp add: u_def)
  have b: "pow2 e \<le> q" using binaryExponent_bounds[OF assms] by (simp add: e_def)
  have "pow2 53 * u = pow2 (53 + (e - 52))" unfolding u_def by (rule pow2_add [symmetric])
  then have "pow2 53 * u = pow2 (e + 1)" by (simp add: add.commute)
  also have "\<dots> = pow2 e * pow2 1" by (rule pow2_add)
  finally have "2 ^ 53 * u = pow2 e * 2" by (simp add: pow2_def)
  then have u2: "u / 2 = pow2 e / 2 ^ 53" by (simp add: field_simps)
  have "of_int (roundHalfEven (q / u)) * u \<le> (q / u + 1 / 2) * u"
    using roundHalfEven_upper[of "q / u"] upos by (simp only: mult_le_cancel_right_pos)
  also have "\<dots> = q + u / 2" using upos by (simp add: field_simps)
  also have "\<dots> \<le> q + q / 2 ^ 53" unfolding u2 using b by (simp add: divide_right_mono)
  finally have "of_int (roundHalfEven (q / u)) * u \<le> q * (1 + 1 / 2 ^ 53)"
    by (simp add: algebra_simps)
  then show ?thesis using assms by (simp add: roundDouble_def Let_def e_def u_def)
qed

text \<open>The doubles below 1 end at \<open>1 - 2 ^ -53\<close>.\<close>

lemma double_below_one:
  assumes d: "roundDouble r = r" and r: "0 \<le> r" "r < 1"
  shows "r \<le> 1 - 1 / 2 ^ 53"
proof (cases "r = 0")
  case True
  then show ?thesis by simp
next
  case False
  then have pos: "0 < r" using r by simp
  define e where "e = binaryExponent r"
  define u where "u = pow2 (e - 52)"
  define m where "m = roundHalfEven (r / u)"
  have b: "pow2 e \<le> r" "r < pow2 (e + 1)"
    using binaryExponent_bounds[OF pos] by (simp_all add: e_def)
  have rm: "r = of_int m * u"
    using d pos by (simp add: roundDouble_def Let_def e_def u_def m_def)
  have "e < 0"
  proof (rule ccontr)
    assume "\<not> e < 0"
    then have "pow2 0 \<le> pow2 e" by (intro pow2_mono) simp
    then show False using b r by (simp add: pow2_def)
  qed
  show ?thesis
  proof (cases "e = - 1")
    case True
    then have u: "u = 1 / 2 ^ 53" by (simp add: u_def pow2_def)
    have "(of_int m :: rat) < of_int (2 ^ 53)" using rm r u by (simp add: field_simps)
    then have "m < 2 ^ 53" by (simp only: of_int_less_iff)
    then have "m \<le> 2 ^ 53 - 1" by simp
    then have "(of_int m :: rat) \<le> of_int (2 ^ 53 - 1)" by (simp only: of_int_le_iff)
    then show ?thesis using rm u by (simp add: field_simps)
  next
    case False
    then have "e + 1 \<le> - 1" using \<open>e < 0\<close> by simp
    then have "pow2 (e + 1) \<le> pow2 (- 1)" by (rule pow2_mono)
    then have "r < 1 / 2" using b by (simp add: pow2_def)
    then show ?thesis by simp
  qed
qed

text \<open>
  The product of a double below 1 with a count \<open>n\<close> rounds to a number below \<open>n\<close>, so
  \<open>Math.floor(Math.random() * n)\<close> is an index below \<open>n\<close>.
\<close>

lemma random_index_in_range:
  assumes d: "roundDouble r = r" and r: "0 \<le> r" "r < 1" and n: "0 < n"
  shows "0 \<le> \<lfloor>roundDouble (r * of_nat n)\<rfloor> \<and> \<lfloor>roundDouble (r * of_nat n)\<rfloor> < int n"
proof -
  have nn: "0 \<le> roundDouble (r * of_nat n)"
    using r by (intro roundDouble_nonneg) simp
  have rr: "r \<le> 1 - 1 / 2 ^ 53" using d r by (rule double_below_one)
  have "roundDouble (r * of_nat n) < of_nat n"
  proof (cases "r = 0")
    case True
    then show ?thesis using n by simp
  next
    case False
    then have pos: "0 < r * of_nat n" using r n by simp
    have "roundDouble (r * of_nat n) \<le> r * of_nat n * (1 + 1 / 2 ^ 53)"
      using pos by (rule roundDouble_upper)
    also have "\<dots> \<le> (1 - 1 / 2 ^ 53) * of_nat n * (1 + 1 / 2 ^ 53)"
      using rr by (intro mult_right_mono) simp_all
    also have "\<dots> = of_nat n * ((1 - 1 / 2 ^ 53) * (1 + 1 / 2 ^ 53))" by simp
    also have "\<dots> < of_nat n * 1"
      using n by (intro mult_strict_left_mono) simp_all
    finally show ?thesis by simp
  qed
  then have "roundDouble (r * of_nat n) < of_int (int n)" by simp
  then have "\<lfloor>roundDouble (r * of_nat n)\<rfloor> < int n" by (simp only: floor_less_iff)
  then show ?thesis using nn by simp
qed

lemma roundDouble_unit:
  "0 \<le> q \<Longrightarrow> q \<le> 1 \<Longrightarrow> 0 \<le> roundDouble q \<and> roundDouble q \<le> 1"
  by (simp add: roundDouble_nonneg roundDouble_le_one)

lemma roundDouble_ratio:
  "a \<le> b \<Longrightarrow> 0 < b \<Longrightarrow>
   0 \<le> roundDouble (of_nat a / of_nat b) \<and> roundDouble (of_nat a / of_nat b) \<le> 1"
proof -
  assume ab: "a \<le> b" and b: "0 < b"
  have "(of_nat a :: rat) \<le> of_nat b" using ab by (simp only: of_nat_le_iff)
  then have "(of_nat a :: rat) / of_nat b \<le> 1" using b by (simp add: divide_le_eq_1)
  moreover have "(0::rat) \<le> of_nat a / of_nat b" by simp
  ultimately show ?thesis by (simp add: roundDouble_unit)
qed

text \<open>
  Rounding is visible in the hub score: with degree centrality 1 and clustering
  coefficient \<open>2 / 3\<close> the score \<open>1 * (1 - 2 / 3)\<close> is the double above the double nearest
  to one third, so it does not tie with a hub score of \<open>1 / 3 * (1 - 0)\<close>.
\<close>

lemma hubScore_rounding:
  "js_div (Num 2) (Num 3) = Num (6004799503160661 / 2 ^ 53)"
  "js_mul (Num 1) (js_sub (Num 1) (js_div (Num 2) (Num 3))) = Num (6004799503160662 / 2 ^ 54)"
  "js_mul (js_div (Num 1) (Num 3)) (js_sub (Num 1) (Num 0)) = Num (6004799503160661 / 2 ^ 54)"
  "js_positive (js_sub (js_mul (Num 1) (js_sub (Num 1) (js_div (Num 2) (Num 3))))
                       (js_mul (js_div (Num 1) (Num 3)) (js_sub (Num 1) (Num 0))))"
  by code_simp+

lemma keys_Map_set:
  "map fst (Map_set m k v) = (if k \<in> set (map fst m) then map fst m else map fst m @ [k])"
  by (induction m) (auto split: if_splits)

lemma Map_get_Map_set: "Map_get (Map_set m k v) k' = (if k' = k then Some v else Map_get m k')"
  by (induction m) (auto simp: Map_get_def)

lemma set_js_insert: "set (js_insert cmp x ys) = insert x (set ys)"
  by (induction ys) auto

lemma set_js_sort: "set (js_sort cmp xs) = set xs"
  by (induction xs) (simp_all add: js_sort_def set_js_insert)

lemma length_js_insert: "length (js_insert cmp x ys) = Suc (length ys)"
  by (induction ys) auto

lemma length_js_sort: "length (js_sort cmp xs) = length xs"
  by (induction xs) (simp_all add: js_sort_def length_js_insert)

lemma mset_js_insert: "mset (js_insert cmp x ys) = add_mset x (mset ys)"
  by (induction ys) auto

lemma mset_js_sort: "mset (js_sort cmp xs) = mset xs"
  by (induction xs) (simp_all add: js_sort_def mset_js_insert)

section \<open>Clustering coefficient: bounds and value\<close>

lemma countConnections_le:
  "countConnections nb \<le> length nb * (length nb - 1) div 2"
proof (induction nb)
  case Nil
  then show ?case by simp
next
  case (Cons n ns)
  have a: "length (filter (\<lambda>m. id_v m \<in> set (refs n)) ns) \<le> length ns"
    by (rule length_filter_le)
  have b: "length ns + length ns * (length ns - 1) div 2 = (Suc (length ns)) * length ns div 2"
    by (cases "length ns") (simp_all add: algebra_simps)
  have "countConnections (n # ns) \<le> length ns + length ns * (length ns - 1) div 2"
    using a Cons.IH by (simp del: length_filter_le)
  then show ?case using b by (simp del: length_filter_le)
qed

lemma connectedPairs_Cons:
  "connectedPairs (n # ns) =
     (\<lambda>j. (0, Suc j)) ` {j. j < length ns \<and> id_v (ns ! j) \<in> set (refs n)} \<union>
     (\<lambda>(i, j). (Suc i, Suc j)) ` connectedPairs ns"
proof (rule set_eqI)
  fix p :: "nat \<times> nat"
  obtain i j where p: "p = (i, j)" by (cases p)
  show "p \<in> connectedPairs (n # ns) \<longleftrightarrow>
        p \<in> (\<lambda>j. (0, Suc j)) ` {j. j < length ns \<and> id_v (ns ! j) \<in> set (refs n)} \<union>
            (\<lambda>(i, j). (Suc i, Suc j)) ` connectedPairs ns"
  proof (cases i)
    case 0
    then show ?thesis unfolding p connectedPairs_def
      by (cases j) (auto simp: image_iff)
  next
    case (Suc i')
    then show ?thesis unfolding p connectedPairs_def
      by (cases j) (auto simp: image_iff)
  qed
qed

lemma finite_connectedPairs: "finite (connectedPairs nb)"
proof -
  have "connectedPairs nb \<subseteq> {..<length nb} \<times> {..<length nb}"
    by (auto simp: connectedPairs_def)
  then show ?thesis by (rule finite_subset) simp
qed

lemma countConnections_card: "countConnections nb = card (connectedPairs nb)"
proof (induction nb)
  case Nil
  then show ?case by (simp add: connectedPairs_def)
next
  case (Cons n ns)
  let ?A = "(\<lambda>j. (0::nat, Suc j)) ` {j. j < length ns \<and> id_v (ns ! j) \<in> set (refs n)}"
  let ?B = "(\<lambda>(i, j). (Suc i, Suc j)) ` connectedPairs ns"
  have disj: "?A \<inter> ?B = {}" by auto
  have cA: "card ?A = length (filter (\<lambda>m. id_v m \<in> set (refs n)) ns)"
    by (simp add: card_image inj_on_def length_filter_conv_card)
  have cB: "card ?B = card (connectedPairs ns)"
    by (rule card_image) (auto simp: inj_on_def)
  have "card (connectedPairs (n # ns)) = card ?A + card ?B"
    unfolding connectedPairs_Cons
    by (rule card_Un_disjoint) (simp_all add: finite_connectedPairs disj)
  then show ?case using cA cB Cons.IH by simp
qed

lemma clusteringScore_truncate: "verse.truncate (clusteringScore vm v) = v"
  by (simp add: clusteringScore_def Let_def verse.defs clusteringEntry.defs)

lemma clusteringScore_zero:
  "refCount v < 2 \<or> length (resolveNeighbors vm v) < 2 \<Longrightarrow>
   clusteringCoefficient (clusteringScore vm v) = Num 0"
  by (auto simp: clusteringScore_def Let_def verse.defs clusteringEntry.defs)

lemma clusteringScore_ratio:
  "\<not> (refCount v < 2 \<or> length (resolveNeighbors vm v) < 2) \<Longrightarrow>
   clusteringCoefficient (clusteringScore vm v) =
     js_div (of_count (countConnections (resolveNeighbors vm v)))
       (of_count (length (resolveNeighbors vm v) * (length (resolveNeighbors vm v) - 1) div 2))"
  by (auto simp: clusteringScore_def Let_def verse.defs clusteringEntry.defs)

lemma possible_pos: "2 \<le> n \<Longrightarrow> 0 < n * (n - 1) div (2::nat)"
proof -
  assume "2 \<le> n"
  then have "2 * 1 \<le> n * (n - 1)" by (intro mult_le_mono) auto
  then show ?thesis by simp
qed

lemma clusteringScore_value:
  assumes "\<not> (refCount v < 2 \<or> length (resolveNeighbors vm v) < 2)"
  shows "clusteringCoefficient (clusteringScore vm v) =
     Num (roundDouble (of_nat (card (connectedPairs (resolveNeighbors vm v))) /
                       of_nat (length (resolveNeighbors vm v) choose 2)))"
proof -
  let ?nb = "resolveNeighbors vm v"
  have "0 < length ?nb * (length ?nb - 1) div 2"
    using assms by (intro possible_pos) simp
  then show ?thesis
    using assms
    by (simp add: clusteringScore_ratio of_count_def countConnections_card choose_two)
qed

lemma clusteringScore_range:
  "\<exists>q. clusteringCoefficient (clusteringScore vm v) = Num q \<and> 0 \<le> q \<and> q \<le> 1"
proof (cases "refCount v < 2 \<or> length (resolveNeighbors vm v) < 2")
  case True
  then show ?thesis by (simp add: clusteringScore_zero)
next
  case False
  let ?nb = "resolveNeighbors vm v"
  let ?p = "length ?nb * (length ?nb - 1) div 2"
  have pos: "0 < ?p" using False by (intro possible_pos) simp
  have le: "countConnections ?nb \<le> ?p" by (rule countConnections_le)
  have "0 \<le> roundDouble (of_nat (countConnections ?nb) / of_nat ?p) \<and>
      roundDouble (of_nat (countConnections ?nb) / of_nat ?p) \<le> 1"
    using le pos by (rule roundDouble_ratio)
  then show ?thesis
    using False pos by (simp add: clusteringScore_ratio of_count_def)
qed

text \<open>The verse map resolves an id to the verse of the list that has it.\<close>

lemma find_append:
  "find P (xs @ ys) = (case find P xs of None \<Rightarrow> find P ys | Some x \<Rightarrow> Some x)"
  by (induction xs) auto

lemma Map_get_foldl_verses:
  "Map_get (foldl (\<lambda>m (k, v). Map_set m k v) m (map (\<lambda>v. (id_v v, v)) vs)) k =
     (case find (\<lambda>w. id_v w = k) (rev vs) of Some w \<Rightarrow> Some w | None \<Rightarrow> Map_get m k)"
proof (induction vs arbitrary: m)
  case Nil
  then show ?case by simp
next
  case (Cons a vs)
  show ?case
    using Cons.IH[of "Map_set m (id_v a) a"]
    by (auto simp: find_append Map_get_Map_set split: option.splits)
qed

lemma Map_get_verseMap_of: "Map_get (verseMap_of verses) k = verseWithId verses k"
  using Map_get_foldl_verses[of "[]" verses k]
  by (simp add: verseMap_of_def new_Map_def verseWithId_def Map_get_def split: option.splits)

lemma map_filter_concat:
  "List.map_filter f xs = concat (map (\<lambda>x. case f x of Some y \<Rightarrow> [y] | None \<Rightarrow> []) xs)"
  by (induction xs) (simp_all add: List.map_filter_simps split: option.splits)

lemma resolveNeighbors_spec:
  "resolveNeighbors (verseMap_of verses) v = resolvedNeighbors verses v"
  unfolding resolveNeighbors_def resolvedNeighbors_def map_filter_concat
  by (simp add: Map_get_verseMap_of)

text \<open>
  Claim C5. When the clustering slot of the cache is empty,
  \<open>calculateClusteringCoefficient\<close> returns one entry per verse, and for every entry:
  the coefficient is a number between 0 and 1; it is exactly 0 when the verse has
  \<open>refCount\<close> below 2 or fewer than 2 resolved neighbours; otherwise it is the number of
  pairs \<open>i < j\<close> of resolved neighbours with the id of neighbour \<open>j\<close> in the reference
  list of neighbour \<open>i\<close>, divided by the binomial coefficient of the number of resolved
  neighbours over 2 (the quotient as a double). The resolved neighbours are those of
  the specification, \<open>resolvedNeighbors\<close>. On the fully connected four-verse graph every
  coefficient is 1.
\<close>

theorem clustering_coefficient_spec:
  "(clustering c = None \<longrightarrow>
     mset (map verse.truncate (fst (calculateClusteringCoefficient c verses))) = mset verses \<and>
     (\<forall>e \<in> set (fst (calculateClusteringCoefficient c verses)).
        (\<exists>q. clusteringCoefficient e = Num q \<and> 0 \<le> q \<and> q \<le> 1) \<and>
        (refCount e < 2 \<or> length (resolvedNeighbors verses (verse.truncate e)) < 2 \<longrightarrow>
         clusteringCoefficient e = Num 0) \<and>
        (\<not> (refCount e < 2 \<or> length (resolvedNeighbors verses (verse.truncate e)) < 2) \<longrightarrow>
         clusteringCoefficient e =
           Num (roundDouble
                  (of_nat (card (connectedPairs (resolvedNeighbors verses (verse.truncate e)))) /
                   of_nat (length (resolvedNeighbors verses (verse.truncate e)) choose 2)))))) \<and>
   map clusteringCoefficient (fst (calculateClusteringCoefficient emptyCache completeGraph4)) =
     [Num 1, Num 1, Num 1, Num 1]"
proof (intro impI conjI ballI)
  show "map clusteringCoefficient (fst (calculateClusteringCoefficient emptyCache completeGraph4)) =
     [Num 1, Num 1, Num 1, Num 1]"
    by code_simp
next
  assume c: "clustering c = None"
  have res: "fst (calculateClusteringCoefficient c verses) = computeClusteringCoefficient verses"
    using c by (simp add: calculateClusteringCoefficient_def Let_def)
  have "mset (map verse.truncate (computeClusteringCoefficient verses)) =
        mset (map verse.truncate (map (clusteringScore (verseMap_of verses)) verses))"
    unfolding computeClusteringCoefficient_def Let_def
    by (simp only: mset_map mset_js_sort)
  then show "mset (map verse.truncate (fst (calculateClusteringCoefficient c verses))) = mset verses"
    unfolding res by (simp add: clusteringScore_truncate o_def)
  fix e assume "e \<in> set (fst (calculateClusteringCoefficient c verses))"
  then have "e \<in> set (map (clusteringScore (verseMap_of verses)) verses)"
    unfolding res computeClusteringCoefficient_def Let_def by (simp only: set_js_sort)
  then obtain v where e: "e = clusteringScore (verseMap_of verses) v" by auto
  have tr: "verse.truncate e = v" unfolding e by (rule clusteringScore_truncate)
  have rc: "refCount e = refCount v" using tr by (auto simp: verse.defs)
  have nb: "resolvedNeighbors verses v = resolveNeighbors (verseMap_of verses) v"
    by (rule resolveNeighbors_spec [symmetric])
  show "\<exists>q. clusteringCoefficient e = Num q \<and> 0 \<le> q \<and> q \<le> 1"
    unfolding e by (rule clusteringScore_range)
  show "clusteringCoefficient e = Num 0"
    if "refCount e < 2 \<or> length (resolvedNeighbors verses (verse.truncate e)) < 2"
    using that unfolding tr rc nb unfolding e by (rule clusteringScore_zero)
  show "clusteringCoefficient e =
           Num (roundDouble
                  (of_nat (card (connectedPairs (resolvedNeighbors verses (verse.truncate e)))) /
                   of_nat (length (resolvedNeighbors verses (verse.truncate e)) choose 2)))"
    if "\<not> (refCount e < 2 \<or> length (resolvedNeighbors verses (verse.truncate e)) < 2)"
    using that unfolding tr rc nb unfolding e by (rule clusteringScore_value)
qed

text \<open>
  On the graph with dangling references the verse C lists B, A, D and the id Z of no
  verse: its resolved neighbours are B, A and D, the one connected pair is (B, A), and
  the coefficient is the double nearest to one third. The verse D lists the id W of no
  verse and C: it has two references and one resolved neighbour, and its coefficient
  is 0.
\<close>

theorem clustering_coefficient_spec_witness:
  "clustering emptyCache = None \<and>
   (\<exists>e \<in> set (fst (calculateClusteringCoefficient emptyCache danglingGraph)).
      id_v e = ''C'' \<and> refs e = [''B'', ''A'', ''D'', ''Z''] \<and>
      map id_v (resolvedNeighbors danglingGraph (verse.truncate e)) = [''B'', ''A'', ''D''] \<and>
      card (connectedPairs (resolvedNeighbors danglingGraph (verse.truncate e))) = 1 \<and>
      clusteringCoefficient e = Num (roundDouble (1 / 3))) \<and>
   (\<exists>e \<in> set (fst (calculateClusteringCoefficient emptyCache danglingGraph)).
      id_v e = ''D'' \<and> refs e = [''W'', ''C''] \<and> refCount e = 2 \<and>
      map id_v (resolvedNeighbors danglingGraph (verse.truncate e)) = [''C''] \<and>
      clusteringCoefficient e = Num 0)"
proof -
  let ?res = "fst (calculateClusteringCoefficient emptyCache danglingGraph)"
  let ?e = "?res ! 2"
  let ?nb = "resolvedNeighbors danglingGraph (verse.truncate ?e)"
  let ?d = "?res ! 3"
  let ?nd = "resolvedNeighbors danglingGraph (verse.truncate ?d)"
  have c: "clustering emptyCache = None" by (simp add: emptyCache_def)
  have len: "length ?res = 4" by code_simp
  have mem: "?e \<in> set ?res" using len by (intro nth_mem) simp
  have i1: "id_v ?e = ''C''" by code_simp
  have i2: "refs ?e = [''B'', ''A'', ''D'', ''Z'']" by code_simp
  have n: "map id_v ?nb = [''B'', ''A'', ''D'']" by code_simp
  have h: "\<not> (refCount ?e < 2 \<or> length ?nb < 2)" by code_simp
  have l: "length ?nb choose 2 = 3" by code_simp
  have "countConnections ?nb = 1" by code_simp
  then have k: "card (connectedPairs ?nb) = 1" by (simp only: countConnections_card)
  have "clusteringCoefficient ?e =
      Num (roundDouble (of_nat (card (connectedPairs ?nb)) / of_nat (length ?nb choose 2)))"
    using clustering_coefficient_spec [of emptyCache danglingGraph] c mem h by blast
  then have v: "clusteringCoefficient ?e = Num (roundDouble (1 / 3))"
    unfolding k l by simp
  have memd: "?d \<in> set ?res" using len by (intro nth_mem) simp
  have j1: "id_v ?d = ''D''" by code_simp
  have j2: "refs ?d = [''W'', ''C'']" by code_simp
  have j3: "refCount ?d = 2" by code_simp
  have nd: "map id_v ?nd = [''C'']" by code_simp
  have hd: "refCount ?d < 2 \<or> length ?nd < 2" by code_simp
  have vd: "clusteringCoefficient ?d = Num 0"
    using clustering_coefficient_spec [of emptyCache danglingGraph] c memd hd by blast
  show ?thesis
    by (rule conjI[OF c], rule conjI, rule bexI[OF _ mem], intro conjI i1 i2 n k v,
        rule bexI[OF _ memd], intro conjI j1 j2 j3 nd vd)
qed

section \<open>Path finder: correctness of the bounded search\<close>

lemma validPath_snoc:
  "validPath vm (p @ [w]) \<longleftrightarrow>
     (p = [] \<or> (validPath vm p \<and> id_v w \<in> set (refs (last p)) \<and> Map_get vm (id_v w) = Some w))"
proof (induction p rule: validPath.induct)
  case (1 vm)
  then show ?case by simp
next
  case (2 vm v)
  then show ?case by simp
next
  case (3 vm u w' rest)
  then show ?case by auto
qed

lemma validPath_nonempty: "validPath vm p \<Longrightarrow> p \<noteq> []"
  by (cases p) auto

lemma pathFrom_node:
  assumes "Map_get vm (id_v start) = Some start" "pathFrom vm start r"
  shows "Map_get vm (id_v (last r)) = Some (last r)"
proof (cases r rule: rev_cases)
  case Nil
  then show ?thesis using assms by (simp add: pathFrom_def)
next
  case (snoc r' w)
  show ?thesis
  proof (cases "r' = []")
    case True
    then show ?thesis using assms snoc by (simp add: pathFrom_def)
  next
    case False
    then show ?thesis using assms snoc by (simp add: pathFrom_def validPath_snoc)
  qed
qed

lemma pathFrom_butlast:
  assumes "pathFrom vm start (r' @ [w])" "r' \<noteq> []"
  shows "pathFrom vm start r'" "id_v w \<in> set (refs (last r'))"
  using assms by (auto simp: pathFrom_def validPath_snoc)

text \<open>Every path from the start ends in a visited node or is longer than some queued path.\<close>

lemma bfsInv_frontier:
  assumes inv: "bfsInv vm start t Q V"
    and st: "Map_get vm (id_v start) = Some start"
    and r: "pathFrom vm start r"
  shows "id_v (last r) \<in> V \<or> (\<exists>q \<in> set Q. length q < length r)"
  using r
proof (induction r rule: rev_induct)
  case Nil
  then show ?case by (simp add: pathFrom_def)
next
  case (snoc w r')
  show ?case
  proof (cases "r' = []")
    case True
    then have "w = start" using snoc.prems by (simp add: pathFrom_def)
    then show ?thesis using inv by (simp add: bfsInv_def)
  next
    case False
    have pr: "pathFrom vm start r'" and edge: "id_v w \<in> set (refs (last r'))"
      using pathFrom_butlast[OF snoc.prems False] by simp_all
    from snoc.IH[OF pr] show ?thesis
    proof
      assume vis: "id_v (last r') \<in> V"
      have node: "Map_get vm (id_v (last r')) = Some (last r')"
        by (rule pathFrom_node[OF st pr])
      from inv node vis have "(\<exists>q \<in> set Q. last q = last r') \<or> set (refs (last r')) \<subseteq> V"
        unfolding bfsInv_def by blast
      then show ?thesis
      proof
        assume "\<exists>q \<in> set Q. last q = last r'"
        then obtain q where q: "q \<in> set Q" "last q = last r'" by blast
        from inv q pr have "length q \<le> length r'"
          unfolding bfsInv_def by metis
        then have "length q < length (r' @ [w])" by simp
        then show ?thesis using q(1) by blast
      next
        assume "set (refs (last r')) \<subseteq> V"
        then show ?thesis using edge by auto
      qed
    next
      assume "\<exists>q \<in> set Q. length q < length r'"
      then obtain q where "q \<in> set Q" "length q < length (r' @ [w])" by auto
      then show ?thesis by blast
    qed
  qed
qed

lemma bfsInv_init:
  assumes st: "Map_get vm (id_v start) = Some start"
  shows "bfsInv vm start t [[start]] {id_v start}"
  unfolding bfsInv_def
proof (intro conjI allI impI ballI)
  fix u assume "Map_get vm (id_v u) = Some u \<and> id_v u \<in> {id_v start}"
  then have "u = start" using st by auto
  then show "(\<exists>q \<in> set [[start]]. last q = u) \<or> set (refs u) \<subseteq> {id_v start}" by simp
next
  fix q r assume "q \<in> set [[start]]" "pathFrom vm start r \<and> last r = last q"
  then show "length q \<le> length r"
    by (cases r) (auto simp: pathFrom_def)
next
  fix u assume "Map_get vm (id_v u) = Some u \<and> id_v u \<in> {id_v start} \<and> (\<forall>q \<in> set [[start]]. last q \<noteq> u)"
  then have "u = start" "start \<noteq> u" using st by auto
  then show "id_v u \<noteq> t" by simp
qed (auto simp: pathFrom_def)

lemma sorted_map_const: "sorted (map (\<lambda>_. c::nat) N)"
  by (induction N) auto

lemma newVerses_elem:
  assumes "keysAreIds vm" "v \<in> set (newVerses vm rs V)"
  shows "id_v v \<in> set rs" "id_v v \<notin> V" "Map_get vm (id_v v) = Some v"
  using assms by (auto simp: set_newVerses keysAreIds_def)

lemma bfsInv_step:
  assumes inv: "bfsInv vm start t (p # rest) V"
    and st: "Map_get vm (id_v start) = Some start"
    and kc: "keysAreIds vm"
    and nt: "id_v (last p) \<noteq> t"
  shows "bfsInv vm start t (rest @ map (\<lambda>v. p @ [v]) (newVerses vm (refs (last p)) V))
           (V \<union> set (refs (last p)))"
proof -
  let ?N = "newVerses vm (refs (last p)) V"
  let ?Q = "rest @ map (\<lambda>v. p @ [v]) ?N"
  let ?V = "V \<union> set (refs (last p))"
  have A: "\<forall>q \<in> set (p # rest). pathFrom vm start q"
    and B1: "sorted (map length (p # rest))"
    and B2: "\<forall>q \<in> set (p # rest). length q \<le> length p + 1"
    and D: "\<forall>u. Map_get vm (id_v u) = Some u \<and> id_v u \<in> V \<longrightarrow>
           (\<exists>q \<in> set (p # rest). last q = u) \<or> set (refs u) \<subseteq> V"
    and E: "\<forall>q \<in> set (p # rest). \<forall>r. pathFrom vm start r \<and> last r = last q \<longrightarrow> length q \<le> length r"
    and F: "\<forall>u. Map_get vm (id_v u) = Some u \<and> id_v u \<in> V \<and> (\<forall>q \<in> set (p # rest). last q \<noteq> u)
           \<longrightarrow> id_v u \<noteq> t"
    and G: "id_v start \<in> V"
    using inv unfolding bfsInv_def by simp_all
  have pp: "pathFrom vm start p" using A by simp
  then have pne: "p \<noteq> []" by (auto simp: pathFrom_def dest: validPath_nonempty)
  have lo: "\<forall>q \<in> set rest. length p \<le> length q" using B1 by simp
  have new_path: "pathFrom vm start (p @ [v])" if "v \<in> set ?N" for v
    using newVerses_elem[OF kc that] pp pne by (simp add: pathFrom_def validPath_snoc)
  have a: "\<forall>q \<in> set ?Q. pathFrom vm start q"
    using A new_path by auto
  have b1: "sorted (map length ?Q)"
    using B1 B2 by (auto simp: sorted_append o_def sorted_map_const)
  have range: "length p \<le> length q \<and> length q \<le> length p + 1" if "q \<in> set ?Q" for q
    using that lo B2 by auto
  have b2: "\<forall>q \<in> set ?Q. length q \<le> length (hd ?Q) + 1"
  proof
    fix q assume q: "q \<in> set ?Q"
    then have "?Q \<noteq> []" by auto
    then have "hd ?Q \<in> set ?Q" by (rule hd_in_set)
    then have "length p \<le> length (hd ?Q)" using range by blast
    moreover have "length q \<le> length p + 1" using range[OF q] by simp
    ultimately show "length q \<le> length (hd ?Q) + 1" by simp
  qed
  have d: "\<forall>u. Map_get vm (id_v u) = Some u \<and> id_v u \<in> ?V \<longrightarrow>
           (\<exists>q \<in> set ?Q. last q = u) \<or> set (refs u) \<subseteq> ?V"
  proof (intro allI impI)
    fix u assume u: "Map_get vm (id_v u) = Some u \<and> id_v u \<in> ?V"
    show "(\<exists>q \<in> set ?Q. last q = u) \<or> set (refs u) \<subseteq> ?V"
    proof (cases "id_v u \<in> V")
      case True
      with D u have "(\<exists>q \<in> set (p # rest). last q = u) \<or> set (refs u) \<subseteq> V" by blast
      then show ?thesis
      proof
        assume "\<exists>q \<in> set (p # rest). last q = u"
        then obtain q where q: "q \<in> set (p # rest)" "last q = u" by blast
        show ?thesis
        proof (cases "q = p")
          case True
          then show ?thesis using q by auto
        next
          case False
          then have "q \<in> set ?Q" using q by auto
          then show ?thesis using q(2) by blast
        qed
      next
        assume "set (refs u) \<subseteq> V"
        then show ?thesis by auto
      qed
    next
      case False
      then have "id_v u \<in> set (refs (last p)) - V" using u by auto
      then have "u \<in> set ?N" using u by (auto simp: set_newVerses)
      then have "p @ [u] \<in> set ?Q" by auto
      moreover have "last (p @ [u]) = u" by simp
      ultimately show ?thesis by blast
    qed
  qed
  have e: "\<forall>q \<in> set ?Q. \<forall>r. pathFrom vm start r \<and> last r = last q \<longrightarrow> length q \<le> length r"
  proof (intro ballI allI impI)
    fix q r assume q: "q \<in> set ?Q" and r: "pathFrom vm start r \<and> last r = last q"
    from q have "q \<in> set rest \<or> (\<exists>v \<in> set ?N. q = p @ [v])" by auto
    then show "length q \<le> length r"
    proof
      assume "q \<in> set rest"
      then show ?thesis using E r by auto
    next
      assume "\<exists>v \<in> set ?N. q = p @ [v]"
      then obtain v where v: "v \<in> set ?N" "q = p @ [v]" by blast
      have "id_v (last r) \<notin> V" using r v newVerses_elem(2)[OF kc v(1)] by simp
      with bfsInv_frontier[OF inv st] r
      obtain q0 where q0: "q0 \<in> set (p # rest)" "length q0 < length r" by blast
      have "length p \<le> length q0" using q0(1) lo by auto
      then show ?thesis using q0(2) v(2) by simp
    qed
  qed
  have f: "\<forall>u. Map_get vm (id_v u) = Some u \<and> id_v u \<in> ?V \<and> (\<forall>q \<in> set ?Q. last q \<noteq> u)
           \<longrightarrow> id_v u \<noteq> t"
  proof (intro allI impI)
    fix u assume u: "Map_get vm (id_v u) = Some u \<and> id_v u \<in> ?V \<and> (\<forall>q \<in> set ?Q. last q \<noteq> u)"
    show "id_v u \<noteq> t"
    proof (cases "id_v u \<in> V")
      case True
      show ?thesis
      proof (cases "last p = u")
        case True
        then show ?thesis using nt by simp
      next
        case False
        then have "\<forall>q \<in> set (p # rest). last q \<noteq> u" using u by auto
        then show ?thesis using F u True by blast
      qed
    next
      case False
      then have "id_v u \<in> set (refs (last p)) - V" using u by auto
      then have "u \<in> set ?N" using u by (auto simp: set_newVerses)
      then have "p @ [u] \<in> set ?Q" by auto
      then have "last (p @ [u]) \<noteq> u" using u by blast
      then show ?thesis by simp
    qed
  qed
  show ?thesis
    unfolding bfsInv_def using a b1 b2 d e f G by simp
qed

lemma bfsLoop_long: "\<forall>q \<in> set Q. maxDepth < length q \<Longrightarrow> bfsLoop vm e Q V = Inr None"
  by (induction Q) auto

lemma bfsInv_no_short_path:
  assumes inv: "bfsInv vm start t Q V"
    and st: "Map_get vm (id_v start) = Some start"
    and long: "\<forall>q \<in> set Q. maxDepth < length q"
    and r: "pathFrom vm start r" "id_v (last r) = t"
  shows "maxDepth < length r"
proof (rule ccontr)
  assume short: "\<not> maxDepth < length r"
  have node: "Map_get vm (id_v (last r)) = Some (last r)"
    by (rule pathFrom_node[OF st r(1)])
  from bfsInv_frontier[OF inv st r(1)] long short have vis: "id_v (last r) \<in> V"
    by fastforce
  show False
  proof (cases "\<exists>q \<in> set Q. last q = last r")
    case True
    then obtain q where q: "q \<in> set Q" "last q = last r" by blast
    from inv q r(1) have "length q \<le> length r"
      unfolding bfsInv_def by metis
    then show False using long q(1) short by fastforce
  next
    case False
    then have "\<forall>q \<in> set Q. last q \<noteq> last r" by blast
    with inv node vis have "id_v (last r) \<noteq> t"
      unfolding bfsInv_def by blast
    then show False using r(2) by simp
  qed
qed

lemma bfsLoop_correct:
  "Map_get vm (id_v start) = Some start \<Longrightarrow> keysAreIds vm \<Longrightarrow>
   bfsInv vm start (id_v e) Q V \<Longrightarrow> bfsPost vm start e (bfsLoop vm e Q V)"
proof (induction vm e Q V rule: bfsLoop.induct)
  case (1 verseMap end_v visited)
  note st = "1.prems"(1)
  have "maxDepth < length r" if "pathFrom verseMap start r \<and> id_v (last r) = id_v end_v" for r
    using bfsInv_no_short_path[OF "1.prems"(3) st] that by simp
  then show ?case by (simp add: bfsPost_def)
next
  case (2 verseMap end_v path queue visited)
  note st = "2.prems"(1) and kc = "2.prems"(2) and inv = "2.prems"(3)
  have pp: "pathFrom verseMap start path"
    using inv unfolding bfsInv_def by simp
  then have pne: "path \<noteq> []" by (auto simp: pathFrom_def dest: validPath_nonempty)
  show ?case
  proof (cases "maxDepth < length path")
    case True
    have "sorted (map length (path # queue))" using inv unfolding bfsInv_def by blast
    then have long: "\<forall>q \<in> set (path # queue). maxDepth < length q"
      using True by auto
    have none: "bfsLoop verseMap end_v (path # queue) visited = Inr None"
      by (rule bfsLoop_long[OF long])
    have "maxDepth < length r" if "pathFrom verseMap start r \<and> id_v (last r) = id_v end_v" for r
      using bfsInv_no_short_path[OF inv st long] that by simp
    then show ?thesis unfolding none by (simp add: bfsPost_def)
  next
    case False
    show ?thesis
    proof (cases "id_v (last path) = id_v end_v")
      case True
      have res: "bfsLoop verseMap end_v (path # queue) visited = Inr (Some path)"
        using False pne True by simp
      have node: "Map_get verseMap (id_v (last path)) = Some (last path)"
        by (rule pathFrom_node[OF st pp])
      have "length path \<le> length r"
        if r: "pathFrom verseMap start r \<and> id_v (last r) = id_v end_v" for r
      proof -
        have "Map_get verseMap (id_v (last r)) = Some (last r)"
          using pathFrom_node[OF st] r by blast
        then have "last r = last path" using node r True by simp
        with inv r show ?thesis unfolding bfsInv_def by simp
      qed
      then show ?thesis unfolding res using pp True False by (simp add: bfsPost_def)
    next
      case ne: False
      let ?N = "newVerses verseMap (refs (last path)) visited"
      let ?Q = "queue @ map (\<lambda>v. path @ [v]) ?N"
      let ?V = "visited \<union> set (refs (last path))"
      have vr: "(?Q, ?V) = visitRefs verseMap path (refs (last path)) queue visited"
        by (simp add: visitRefs_eq)
      have res: "bfsLoop verseMap end_v (path # queue) visited = bfsLoop verseMap end_v ?Q ?V"
        using False pne ne by (simp add: visitRefs_eq)
      have "bfsInv verseMap start (id_v end_v) ?Q ?V"
        by (rule bfsInv_step[OF inv st kc ne])
      then have "bfsPost verseMap start end_v (bfsLoop verseMap end_v ?Q ?V)"
        by (rule "2.IH"(2)[OF False pne ne vr st kc])
      then show ?thesis unfolding res .
    qed
  qed
qed

lemma set_Map_set: "set (Map_set m k v) \<subseteq> insert (k, v) (set m)"
  by (induction m) (auto split: if_splits)

lemma foldl_Map_set_keys:
  "\<forall>(k, v) \<in> set m. id_v v = k \<Longrightarrow>
   \<forall>(k, v) \<in> set (foldl (\<lambda>m (k, v). Map_set m k v) m (map (\<lambda>v. (id_v v, v)) vs)). id_v v = k"
proof (induction vs arbitrary: m)
  case Nil
  then show ?case by simp
next
  case (Cons a vs)
  have "\<forall>(k, v) \<in> set (Map_set m (id_v a) a). id_v v = k"
    using Cons.prems set_Map_set[of m "id_v a" a] by auto
  from Cons.IH[OF this] show ?case by simp
qed

lemma keysAreIds_verseMap_of: "keysAreIds (verseMap_of verses)"
proof -
  have "\<forall>(k, v) \<in> set (verseMap_of verses). id_v v = k"
    unfolding verseMap_of_def new_Map_def by (rule foldl_Map_set_keys) simp
  then show ?thesis
    unfolding keysAreIds_def Map_get_def by (auto dest!: map_of_SomeD)
qed

lemma pathFrom_hops: "pathFrom vm start r \<Longrightarrow> (hops r < maxDepth) = (length r \<le> maxDepth)"
  by (cases r) (auto simp: pathFrom_def hops_def)

lemma chain4_path:
  "findShortestPath (chain4 ! 0) (chain4 ! 3) (verseMap_of chain4) = Inr (Some chain4)"
  by code_simp

text \<open>
  Claim C2, as amended. Let \<open>start\<close> be the verse that the verse map holds under its id.
  If the graph has a path from \<open>start\<close> to a verse with the id of \<open>end_v\<close> of fewer than
  \<open>maxDepth = 6\<close> hops (at most 6 verses), \<open>findShortestPath\<close> returns such a path, and no
  path between the two has fewer hops; if there is no such path it returns \<open>null\<close>. On the
  chain A - B - C - D the path from A to D is the whole chain.
\<close>

theorem findShortestPath_bounded_bfs:
  "(Map_get (verseMap_of verses) (id_v start) = Some start \<longrightarrow>
      ((\<exists>r. pathFrom (verseMap_of verses) start r \<and> id_v (last r) = id_v end_v \<and>
            hops r < maxDepth) \<longrightarrow>
       (\<exists>p. findShortestPath start end_v (verseMap_of verses) = Inr (Some p) \<and>
            pathFrom (verseMap_of verses) start p \<and> id_v (last p) = id_v end_v \<and>
            hops p < maxDepth \<and>
            (\<forall>r. pathFrom (verseMap_of verses) start r \<and> id_v (last r) = id_v end_v
                 \<longrightarrow> hops p \<le> hops r))) \<and>
      (\<not> (\<exists>r. pathFrom (verseMap_of verses) start r \<and> id_v (last r) = id_v end_v \<and>
            hops r < maxDepth) \<longrightarrow>
       findShortestPath start end_v (verseMap_of verses) = Inr None)) \<and>
   maxDepth = 6 \<and>
   findShortestPath (chain4 ! 0) (chain4 ! 3) (verseMap_of chain4) = Inr (Some chain4)"
proof (intro conjI impI)
  show "maxDepth = 6" by (simp add: maxDepth_def)
  show "findShortestPath (chain4 ! 0) (chain4 ! 3) (verseMap_of chain4) = Inr (Some chain4)"
    by (rule chain4_path)
next
  let ?vm = "verseMap_of verses"
  assume st: "Map_get ?vm (id_v start) = Some start"
  have post: "bfsPost ?vm start end_v (findShortestPath start end_v ?vm)"
    unfolding findShortestPath_def
    by (rule bfsLoop_correct[OF st keysAreIds_verseMap_of bfsInv_init[OF st]])
  {
    assume "\<exists>r. pathFrom ?vm start r \<and> id_v (last r) = id_v end_v \<and> hops r < maxDepth"
    then obtain r where r: "pathFrom ?vm start r" "id_v (last r) = id_v end_v" "length r \<le> maxDepth"
      using pathFrom_hops by blast
    obtain p where p: "findShortestPath start end_v ?vm = Inr (Some p)"
      using post r unfolding bfsPost_def
      by (cases "findShortestPath start end_v ?vm") (fastforce split: option.splits)+
    have good: "pathFrom ?vm start p" "id_v (last p) = id_v end_v" "length p \<le> maxDepth"
      "\<forall>r. pathFrom ?vm start r \<and> id_v (last r) = id_v end_v \<longrightarrow> length p \<le> length r"
      using post unfolding p bfsPost_def by simp_all
    have "hops p < maxDepth" using good(1,3) pathFrom_hops by blast
    moreover have "\<forall>r. pathFrom ?vm start r \<and> id_v (last r) = id_v end_v \<longrightarrow> hops p \<le> hops r"
      using good(4) by (auto simp: hops_def)
    ultimately show "\<exists>p. findShortestPath start end_v ?vm = Inr (Some p) \<and>
            pathFrom ?vm start p \<and> id_v (last p) = id_v end_v \<and> hops p < maxDepth \<and>
            (\<forall>r. pathFrom ?vm start r \<and> id_v (last r) = id_v end_v \<longrightarrow> hops p \<le> hops r)"
      using p good(1,2) by blast
  }
  {
    assume no: "\<not> (\<exists>r. pathFrom ?vm start r \<and> id_v (last r) = id_v end_v \<and> hops r < maxDepth)"
    show "findShortestPath start end_v ?vm = Inr None"
    proof (cases "findShortestPath start end_v ?vm")
      case (Inl a)
      then show ?thesis using post by (simp add: bfsPost_def)
    next
      case (Inr b)
      show ?thesis
      proof (cases b)
        case None
        then show ?thesis using Inr by simp
      next
        case (Some p)
        then have "pathFrom ?vm start p \<and> id_v (last p) = id_v end_v \<and> length p \<le> maxDepth"
          using post Inr by (simp add: bfsPost_def)
        then have "pathFrom ?vm start p \<and> id_v (last p) = id_v end_v \<and> hops p < maxDepth"
          using pathFrom_hops by blast
        then show ?thesis using no by blast
      qed
    qed
  }
qed

text \<open>
  The claim as stated fails at six hops: the chain of seven verses is a path of 6 hops
  from its first to its last verse, and the search returns \<open>null\<close>.
\<close>

theorem findShortestPath_six_hops_counterexample:
  "pathFrom (verseMap_of chain7) (chain7 ! 0) chain7 \<and>
   id_v (last chain7) = id_v (chain7 ! 6) \<and>
   hops chain7 = 6 \<and>
   findShortestPath (chain7 ! 0) (chain7 ! 6) (verseMap_of chain7) = Inr None"
  by code_simp

theorem findShortestPath_bounded_bfs_witness:
  "Map_get (verseMap_of chain7) (id_v (chain7 ! 0)) = Some (chain7 ! 0) \<and>
   pathFrom (verseMap_of chain7) (chain7 ! 0) (take 6 chain7) \<and>
   id_v (last (take 6 chain7)) = id_v (chain7 ! 5) \<and>
   hops (take 6 chain7) < maxDepth \<and>
   (\<exists>p. findShortestPath (chain7 ! 0) (chain7 ! 5) (verseMap_of chain7) = Inr (Some p) \<and>
        hops p \<le> hops (take 6 chain7))"
proof -
  have h: "Map_get (verseMap_of chain7) (id_v (chain7 ! 0)) = Some (chain7 ! 0)"
    by code_simp
  have r: "pathFrom (verseMap_of chain7) (chain7 ! 0) (take 6 chain7) \<and>
      id_v (last (take 6 chain7)) = id_v (chain7 ! 5) \<and> hops (take 6 chain7) < maxDepth"
    by code_simp
  show ?thesis
    using h r findShortestPath_bounded_bfs [of chain7 "chain7 ! 0" "chain7 ! 5"]
    by blast
qed

section \<open>Betweenness centrality: normalisation of the accumulators\<close>

lemma distinct_keys_Map_set: "distinct (map fst m) \<Longrightarrow> distinct (map fst (Map_set m k v))"
  by (simp add: keys_Map_set)

lemma keys_foldl_Map_set:
  "set (map fst (foldl (\<lambda>m (k, v). Map_set m k v) m es)) = set (map fst m) \<union> fst ` set es \<and>
   (distinct (map fst m) \<longrightarrow> distinct (map fst (foldl (\<lambda>m (k, v). Map_set m k v) m es)))"
proof (induction es arbitrary: m)
  case Nil
  then show ?case by simp
next
  case (Cons e es)
  obtain k v where e: "e = (k, v)" by (cases e)
  show ?case using Cons.IH[of "Map_set m k v"]
    by (auto simp: e keys_Map_set split: if_splits)
qed

lemma keys_new_Map: "set (map fst (new_Map es)) = fst ` set es" "distinct (map fst (new_Map es))"
  using keys_foldl_Map_set[of "[]" es] by (simp_all add: new_Map_def)

lemma foldl_Map_set_prop:
  "\<forall>(k, v) \<in> set m. P k v \<Longrightarrow> \<forall>(k, v) \<in> set es. P k v \<Longrightarrow>
   \<forall>(k, v) \<in> set (foldl (\<lambda>m (k, v). Map_set m k v) m es). P k v"
proof (induction es arbitrary: m)
  case Nil
  then show ?case by simp
next
  case (Cons e es)
  obtain k v where e: "e = (k, v)" by (cases e)
  have "\<forall>(k, v) \<in> set (Map_set m k v). P k v"
    using Cons.prems set_Map_set[of m k v] by (auto simp: e)
  from Cons.IH[OF this] Cons.prems(2) show ?case by (simp add: e)
qed

lemma verseMap_of_member: "Map_get (verseMap_of verses) k = Some v \<Longrightarrow> v \<in> set verses"
proof -
  have "\<forall>(k, v) \<in> set (verseMap_of verses). v \<in> set verses"
    unfolding verseMap_of_def new_Map_def by (rule foldl_Map_set_prop) auto
  then show "Map_get (verseMap_of verses) k = Some v \<Longrightarrow> v \<in> set verses"
    unfolding Map_get_def by (auto dest!: map_of_SomeD)
qed

lemma bfsLoop_elems:
  "\<forall>q \<in> set Q. q \<noteq> [] \<and> (\<forall>v \<in> set q. P v) \<Longrightarrow>
   \<forall>k v. Map_get vm k = Some v \<longrightarrow> P v \<Longrightarrow>
   (case bfsLoop vm e Q V of
      Inl err \<Rightarrow> False
    | Inr None \<Rightarrow> True
    | Inr (Some p) \<Rightarrow> \<forall>v \<in> set p. P v)"
proof (induction vm e Q V rule: bfsLoop.induct)
  case (1 verseMap end_v visited)
  then show ?case by simp
next
  case (2 verseMap end_v path queue visited)
  have pne: "path \<noteq> []" and pP: "\<forall>v \<in> set path. P v"
    and qs: "\<forall>q \<in> set queue. q \<noteq> [] \<and> (\<forall>v \<in> set q. P v)"
    using "2.prems"(1) by simp_all
  show ?case
  proof (cases "maxDepth < length path")
    case True
    then show ?thesis using "2.IH"(1)[OF True qs "2.prems"(2)] by simp
  next
    case False
    show ?thesis
    proof (cases "id_v (last path) = id_v end_v")
      case True
      then show ?thesis using False pne pP by simp
    next
      case ne: False
      let ?N = "newVerses verseMap (refs (last path)) visited"
      let ?Q = "queue @ map (\<lambda>v. path @ [v]) ?N"
      let ?V = "visited \<union> set (refs (last path))"
      have vr: "(?Q, ?V) = visitRefs verseMap path (refs (last path)) queue visited"
        by (simp add: visitRefs_eq)
      have "\<forall>v \<in> set ?N. P v"
        using "2.prems"(2) by (auto simp: set_newVerses)
      then have "\<forall>q \<in> set ?Q. q \<noteq> [] \<and> (\<forall>v \<in> set q. P v)"
        using qs pP by auto
      from "2.IH"(2)[OF False pne ne vr this "2.prems"(2)]
      show ?thesis using False pne ne by (simp add: visitRefs_eq)
    qed
  qed
qed

lemma findShortestPath_elems:
  assumes "source \<in> set verses"
  shows "case findShortestPath source target (verseMap_of verses) of
      Inl err \<Rightarrow> False
    | Inr None \<Rightarrow> True
    | Inr (Some p) \<Rightarrow> \<forall>v \<in> set p. v \<in> set verses"
  unfolding findShortestPath_def
  by (rule bfsLoop_elems) (use assms verseMap_of_member in auto)

lemma randomVerse_in_range:
  assumes "roundDouble r = r" "0 \<le> r" "r < 1" "verses \<noteq> []"
  shows "\<exists>v \<in> set verses. randomVerse verses r = Some v"
proof -
  let ?n = "length verses"
  let ?i = "\<lfloor>roundDouble (r * of_nat ?n)\<rfloor>"
  have n: "0 < ?n" using assms(4) by simp
  have lo: "0 \<le> ?i" and hi: "?i < int ?n"
    using random_index_in_range[OF assms(1,2,3) n] by simp_all
  have "nat ?i < ?n" using lo hi by linarith
  then have mem: "verses ! nat ?i \<in> set verses" by (rule nth_mem)
  have "randomVerse verses r = Some (verses ! nat ?i)"
    using lo hi unfolding randomVerse_def Let_def by (simp only: simp_thms if_True)
  then show ?thesis using mem by blast
qed

lemma keys_bumpInterior_aux:
  "\<forall>v \<in> set vs. id_v v \<in> set (map fst b) \<Longrightarrow>
   map fst (foldl (\<lambda>b v. Map_set b (id_v v)
                     ((case Map_get b (id_v v) of Some current \<Rightarrow> current | None \<Rightarrow> 0) + 1)) b vs)
     = map fst b"
proof (induction vs arbitrary: b)
  case Nil
  then show ?case by simp
next
  case (Cons a vs)
  let ?b = "Map_set b (id_v a) ((case Map_get b (id_v a) of Some current \<Rightarrow> current | None \<Rightarrow> 0) + 1)"
  have k: "map fst ?b = map fst b" using Cons.prems by (simp add: keys_Map_set)
  have "\<forall>v \<in> set vs. id_v v \<in> set (map fst ?b)" using Cons.prems k by simp
  from Cons.IH[OF this] k show ?case by simp
qed

lemma interior_subset: "v \<in> set (butlast (tl p)) \<Longrightarrow> v \<in> set p"
proof -
  assume "v \<in> set (butlast (tl p))"
  then have "v \<in> set (tl p)" by (rule in_set_butlastD)
  then show "v \<in> set p" by (cases p) simp_all
qed

lemma keys_bumpInterior:
  assumes "\<forall>v \<in> set p. id_v v \<in> set (map fst b)"
  shows "map fst (bumpInterior b p) = map fst b"
proof -
  have "\<forall>v \<in> set (butlast (tl p)). id_v v \<in> set (map fst b)"
  proof
    fix v assume "v \<in> set (butlast (tl p))"
    then have "v \<in> set p" by (rule interior_subset)
    then show "id_v v \<in> set (map fst b)" using assms by simp
  qed
  then show ?thesis unfolding bumpInterior_def by (rule keys_bumpInterior_aux)
qed

lemma keys_recordPath:
  "(case path of None \<Rightarrow> True | Some p \<Rightarrow> \<forall>v \<in> set p. id_v v \<in> set (map fst b)) \<Longrightarrow>
   map fst (fst (recordPath (b, f) path)) = map fst b"
  by (cases path) (simp_all add: keys_bumpInterior)

lemma recordPath_short:
  "recordPath acc None = acc \<and> (length p \<le> 2 \<longrightarrow> recordPath acc (Some p) = acc)"
  by (cases acc) simp

lemma recordPath_found:
  "snd acc \<le> snd (recordPath acc path) \<and> (snd (recordPath acc path) = snd acc \<longrightarrow> recordPath acc path = acc)"
  by (cases acc; cases path) auto

lemma sampleLoop_found:
  "sampleLoop verses vm rnd sample i acc = Inr acc' \<Longrightarrow>
   snd acc \<le> snd acc' \<and> (snd acc' = snd acc \<longrightarrow> acc' = acc)"
proof (induction verses vm rnd sample i acc rule: sampleLoop.induct)
  case (1 verses verseMap rnd sample i acc)
  note unf = sampleLoop.simps[of verses verseMap rnd sample i acc]
  show ?case
  proof (cases "int i < sample")
    case False
    then show ?thesis using "1.prems" by (simp add: unf)
  next
    case True
    show ?thesis
    proof (cases "randomVerse verses (rnd (2 * i))")
      case None
      then show ?thesis using "1.prems" True by (simp add: unf)
    next
      case s: (Some source)
      show ?thesis
      proof (cases "randomVerse verses (rnd (2 * i + 1))")
        case None
        then show ?thesis using "1.prems" True s by (simp add: unf)
      next
        case t: (Some target)
        show ?thesis
        proof (cases "id_v source = id_v target")
          case same: True
          have "sampleLoop verses verseMap rnd sample (i + 1) acc = Inr acc'"
            using "1.prems" True s t same by (simp add: unf)
          then show ?thesis using "1.IH"(1)[OF True _ s t same] s t by simp
        next
          case diff: False
          show ?thesis
          proof (cases "findShortestPath source target verseMap")
            case (Inl err)
            then show ?thesis using "1.prems" True s t diff by (simp add: unf)
          next
            case (Inr path)
            have run: "sampleLoop verses verseMap rnd sample (i + 1) (recordPath acc path) = Inr acc'"
              using "1.prems" True s t diff Inr by (simp add: unf)
            have ih: "snd (recordPath acc path) \<le> snd acc' \<and>
                (snd acc' = snd (recordPath acc path) \<longrightarrow> acc' = recordPath acc path)"
              using "1.IH"(2)[OF True _ s t diff Inr run] s t by simp
            show ?thesis using ih recordPath_found[of acc path] by auto
          qed
        qed
      qed
    qed
  qed
qed

lemma sampleLoop_keys:
  "vm = verseMap_of verses \<Longrightarrow> \<forall>k. roundDouble (rnd k) = rnd k \<and> 0 \<le> rnd k \<and> rnd k < 1 \<Longrightarrow>
   sample \<le> int (length verses) \<Longrightarrow>
   set (map fst (fst acc)) = id_v ` set verses \<Longrightarrow>
   \<exists>acc'. sampleLoop verses vm rnd sample i acc = Inr acc' \<and> map fst (fst acc') = map fst (fst acc)"
proof (induction verses vm rnd sample i acc rule: sampleLoop.induct)
  case (1 verses verseMap rnd sample i acc)
  note vm = "1.prems"(1) and rnd = "1.prems"(2) and cap = "1.prems"(3) and keys = "1.prems"(4)
  note unf = sampleLoop.simps[of verses verseMap rnd sample i acc]
  show ?case
  proof (cases "int i < sample")
    case False
    then show ?thesis by (simp add: unf)
  next
    case True
    then have ne: "verses \<noteq> []" using cap by auto
    obtain source where s: "source \<in> set verses" "randomVerse verses (rnd (2 * i)) = Some source"
      using randomVerse_in_range[OF _ _ _ ne, of "rnd (2 * i)"] rnd by blast
    obtain target where t: "target \<in> set verses" "randomVerse verses (rnd (2 * i + 1)) = Some target"
      using randomVerse_in_range[OF _ _ _ ne, of "rnd (2 * i + 1)"] rnd by blast
    show ?thesis
    proof (cases "id_v source = id_v target")
      case same: True
      have "sampleLoop verses verseMap rnd sample i acc = sampleLoop verses verseMap rnd sample (i + 1) acc"
        using True s t same by (simp add: unf)
      then show ?thesis
        using "1.IH"(1)[OF True _ s(2) t(2) same vm rnd cap keys] s t by simp
    next
      case diff: False
      have el: "case findShortestPath source target verseMap of
          Inl err \<Rightarrow> False | Inr None \<Rightarrow> True | Inr (Some p) \<Rightarrow> \<forall>v \<in> set p. v \<in> set verses"
        unfolding vm by (rule findShortestPath_elems[OF s(1)])
      then obtain path where path: "findShortestPath source target verseMap = Inr path"
        by (cases "findShortestPath source target verseMap") auto
      obtain b f where acc: "acc = (b, f)" by (cases acc)
      have "case path of None \<Rightarrow> True | Some p \<Rightarrow> \<forall>v \<in> set p. id_v v \<in> set (map fst b)"
        using el keys unfolding path acc by (cases path) auto
      then have k: "map fst (fst (recordPath acc path)) = map fst (fst acc)"
        unfolding acc by (simp add: keys_recordPath)
      then have keys': "set (map fst (fst (recordPath acc path))) = id_v ` set verses"
        using keys by simp
      have "sampleLoop verses verseMap rnd sample i acc =
          sampleLoop verses verseMap rnd sample (i + 1) (recordPath acc path)"
        using True s t diff path by (simp add: unf)
      then show ?thesis
        using "1.IH"(2)[OF True _ s(2) t(2) diff path vm rnd cap keys'] s t k by simp
    qed
  qed
qed

lemma js_max_count: "js_max (of_count a) (of_count b) = of_count (max a b)"
  by (simp add: of_count_def)

lemma foldl_js_max_counts:
  "foldl js_max (of_count a) (map of_count ns) = of_count (Max (set (a # ns)))"
proof (induction ns arbitrary: a)
  case Nil
  then show ?case by simp
next
  case (Cons n ns)
  have "Max (set (a # n # ns)) = Max (set (max a n # ns))"
    by (cases "ns = []") (simp_all add: max.assoc)
  then show ?case using Cons.IH[of "max a n"] by (simp add: js_max_count)
qed

lemma Math_max_counts: "ns \<noteq> [] \<Longrightarrow> Math_max (map of_count ns) = of_count (Max (set ns))"
proof (cases ns)
  case Nil
  then show "ns \<noteq> [] \<Longrightarrow> ?thesis" by simp
next
  case (Cons n ns')
  have "js_max NegInf (of_count n) = of_count n" by (simp add: of_count_def)
  then show ?thesis unfolding Math_max_def Cons
    by (simp add: foldl_js_max_counts del: js_max.simps)
qed

lemma values_accumulated:
  assumes "distinct (map fst B)" "set (map fst B) = id_v ` set verses"
  shows "set (Map_values B) = accumulated B ` set verses"
proof (rule set_eqI)
  fix c
  show "c \<in> set (Map_values B) \<longleftrightarrow> c \<in> accumulated B ` set verses"
  proof
    assume "c \<in> set (Map_values B)"
    then obtain k where kc: "(k, c) \<in> set B" by (auto simp: Map_values_def)
    then have "k \<in> set (map fst B)" by force
    then obtain v where v: "v \<in> set verses" "k = id_v v" using assms(2) by auto
    have "map_of B k = Some c" using assms(1) kc by simp
    then have "accumulated B v = c" by (simp add: accumulated_def Map_get_def v(2))
    then show "c \<in> accumulated B ` set verses" using v(1) by blast
  next
    assume "c \<in> accumulated B ` set verses"
    then obtain v where v: "v \<in> set verses" "c = accumulated B v" by blast
    then have "id_v v \<in> set (map fst B)" using assms(2) by simp
    then obtain c' where c': "(id_v v, c') \<in> set B" by auto
    then have "map_of B (id_v v) = Some c'" using assms(1) by simp
    then have "c = c'" by (simp add: accumulated_def Map_get_def v(2))
    then show "c \<in> set (Map_values B)" using c' by (force simp: Map_values_def)
  qed
qed

lemma betweennessEntryOf_fields:
  "verse.truncate (betweennessEntryOf B m v) = v"
  "betweennessScore (betweennessEntryOf B m v) = accumulated B v"
  "betweennessCentrality (betweennessEntryOf B m v) = js_div (of_count (accumulated B v)) m"
  "id_v (betweennessEntryOf B m v) = id_v v"
  by (simp_all add: betweennessEntryOf_def verse.defs betweennessEntry.defs)

lemma accumulated_init: "accumulated (new_Map (map (\<lambda>v. (id_v v, 0)) verses)) v = 0"
proof -
  have "\<forall>(k, n) \<in> set (new_Map (map (\<lambda>v. (id_v v, 0::nat)) verses)). n = 0"
    unfolding new_Map_def by (rule foldl_Map_set_prop) auto
  then show ?thesis
    unfolding accumulated_def Map_get_def
    by (auto split: option.splits dest!: map_of_SomeD)
qed

text \<open>
  The accumulators after the sampling loop: one increment for every occurrence of a
  verse strictly inside a discovered path.
\<close>

lemma interior_eq: "interior p = butlast (tl p)"
proof (rule nth_equalityI)
  show "length (interior p) = length (butlast (tl p))"
    by (simp add: interior_def)
next
  fix i assume "i < length (interior p)"
  then have i: "i < length p - 1 - 1" by (simp add: interior_def)
  then have "interior p ! i = p ! Suc i" by (simp add: interior_def)
  moreover have "butlast (tl p) ! i = p ! Suc i"
    using i by (simp add: nth_butlast nth_tl)
  ultimately show "interior p ! i = butlast (tl p) ! i" by simp
qed

lemma length_interior: "length (interior p) = length p - 2"
  by (simp add: interior_def)

lemma interior_member: "w \<in> set (interior p) \<Longrightarrow> w \<in> set p"
  unfolding interior_eq by (rule interior_subset)

lemma accumulated_foldl_bump:
  "(case Map_get (foldl (\<lambda>b v. Map_set b (id_v v)
                     ((case Map_get b (id_v v) of Some current \<Rightarrow> current | None \<Rightarrow> 0) + 1)) b vs) k
      of Some n \<Rightarrow> n | None \<Rightarrow> 0) =
   (case Map_get b k of Some n \<Rightarrow> n | None \<Rightarrow> 0) + length (filter (\<lambda>v. id_v v = k) vs)"
proof (induction vs arbitrary: b)
  case Nil
  then show ?case by simp
next
  case (Cons a vs)
  let ?b = "Map_set b (id_v a) ((case Map_get b (id_v a) of Some current \<Rightarrow> current | None \<Rightarrow> 0) + 1)"
  have "(case Map_get ?b k of Some n \<Rightarrow> n | None \<Rightarrow> 0) =
      (case Map_get b k of Some n \<Rightarrow> n | None \<Rightarrow> 0) + (if id_v a = k then 1 else 0)"
    by (simp add: Map_get_Map_set)
  then show ?case using Cons.IH[of ?b] by simp
qed

lemma accumulated_bumpInterior:
  "accumulated (bumpInterior b p) v =
     accumulated b v + length (filter (\<lambda>w. id_v w = id_v v) (interior p))"
  unfolding accumulated_def bumpInterior_def interior_eq by (rule accumulated_foldl_bump)

lemma accumulated_foldl_paths:
  "accumulated (foldl bumpInterior b ps) v = accumulated b v + interiorCount ps (id_v v)"
proof (induction ps arbitrary: b)
  case Nil
  then show ?case by (simp add: interiorCount_def)
next
  case (Cons p ps)
  have "interiorCount (p # ps) (id_v v) =
      length (filter (\<lambda>w. id_v w = id_v v) (interior p)) + interiorCount ps (id_v v)"
    by (simp add: interiorCount_def)
  then show ?case using Cons.IH[of "bumpInterior b p"] by (simp add: accumulated_bumpInterior)
qed

lemma fst_recordPath: "fst (recordPath acc (Some p)) = bumpInterior (fst acc) p"
proof (cases "2 < length p")
  case True
  then show ?thesis by (cases acc) simp
next
  case False
  then have "interior p = []" using length_interior[of p] by simp
  then have "butlast (tl p) = []" unfolding interior_eq .
  then have "bumpInterior (fst acc) p = fst acc" by (simp add: bumpInterior_def)
  then show ?thesis using False by (cases acc) simp
qed

lemma sampleLoop_paths:
  "vm = verseMap_of verses \<Longrightarrow> sampleLoop verses vm rnd sample i acc = Inr acc' \<Longrightarrow>
   fst acc' = foldl bumpInterior (fst acc)
                (List.map_filter (sampledPath verses rnd) [i ..< nat sample])"
proof (induction verses vm rnd sample i acc rule: sampleLoop.induct)
  case (1 verses verseMap rnd sample i acc)
  note vm = "1.prems"(1)
  note unf = sampleLoop.simps[of verses verseMap rnd sample i acc]
  show ?case
  proof (cases "int i < sample")
    case False
    then have "[i ..< nat sample] = []" by simp
    then show ?thesis using "1.prems"(2) False by (simp add: unf List.map_filter_simps)
  next
    case True
    then have upt: "[i ..< nat sample] = i # [i + 1 ..< nat sample]"
      by (simp add: upt_conv_Cons)
    show ?thesis
    proof (cases "randomVerse verses (rnd (2 * i))")
      case None
      then show ?thesis using "1.prems"(2) True by (simp add: unf)
    next
      case s: (Some source)
      show ?thesis
      proof (cases "randomVerse verses (rnd (2 * i + 1))")
        case None
        then show ?thesis using "1.prems"(2) True s by (simp add: unf)
      next
        case t: (Some target)
        show ?thesis
        proof (cases "id_v source = id_v target")
          case same: True
          have run: "sampleLoop verses verseMap rnd sample (i + 1) acc = Inr acc'"
            using "1.prems"(2) True s t same by (simp add: unf)
          have sp: "sampledPath verses rnd i = None"
            using s t same by (simp add: sampledPath_def)
          have "fst acc' = foldl bumpInterior (fst acc)
                (List.map_filter (sampledPath verses rnd) [i + 1 ..< nat sample])"
            using "1.IH"(1)[OF True _ s t same vm run] s t by simp
          then show ?thesis unfolding upt by (simp add: List.map_filter_simps sp)
        next
          case diff: False
          show ?thesis
          proof (cases "findShortestPath source target verseMap")
            case (Inl err)
            then show ?thesis using "1.prems"(2) True s t diff by (simp add: unf)
          next
            case (Inr path)
            have run: "sampleLoop verses verseMap rnd sample (i + 1) (recordPath acc path) = Inr acc'"
              using "1.prems"(2) True s t diff Inr by (simp add: unf)
            have ih: "fst acc' = foldl bumpInterior (fst (recordPath acc path))
                (List.map_filter (sampledPath verses rnd) [i + 1 ..< nat sample])"
              using "1.IH"(2)[OF True _ s t diff Inr vm run] s t by simp
            show ?thesis
            proof (cases path)
              case None
              have sp: "sampledPath verses rnd i = None"
                using s t diff Inr None vm by (simp add: sampledPath_def)
              have "recordPath acc None = acc" by (cases acc) simp
              then show ?thesis using ih unfolding upt None
                by (simp add: List.map_filter_simps sp)
            next
              case (Some p)
              have sp: "sampledPath verses rnd i = Some p"
                using s t diff Inr Some vm by (simp add: sampledPath_def)
              show ?thesis using ih unfolding upt Some
                by (simp add: List.map_filter_simps sp fst_recordPath)
            qed
          qed
        qed
      qed
    qed
  qed
qed

lemma randomVerse_member:
  assumes "randomVerse verses r = Some v"
  shows "v \<in> set verses"
proof -
  let ?i = "\<lfloor>roundDouble (r * of_nat (length verses))\<rfloor>"
  have b: "0 \<le> ?i \<and> ?i < int (length verses)" and v: "v = verses ! nat ?i"
    using assms unfolding randomVerse_def Let_def by (auto split: if_splits)
  have "nat ?i < length verses" using b by linarith
  then show ?thesis unfolding v by (rule nth_mem)
qed

lemma map_filter_member:
  "y \<in> set (List.map_filter f xs) \<Longrightarrow> \<exists>x \<in> set xs. f x = Some y"
  by (induction xs) (auto split: option.splits)

lemma sampledPath_elems:
  assumes "sampledPath verses rnd k = Some p"
  shows "set p \<subseteq> set verses"
proof -
  from assms obtain source target where
    s: "randomVerse verses (rnd (2 * k)) = Some source" and
    f: "findShortestPath source target (verseMap_of verses) = Inr (Some p)"
    unfolding sampledPath_def
    by (auto split: option.splits if_splits sum.splits)
  have "source \<in> set verses" using s by (rule randomVerse_member)
  from findShortestPath_elems[OF this, of target] show ?thesis
    unfolding f by auto
qed

lemma sampledPaths_elems: "p \<in> set (sampledPaths verses sampleSize rnd) \<Longrightarrow> set p \<subseteq> set verses"
  unfolding sampledPaths_def by (auto dest!: map_filter_member sampledPath_elems)

lemma interiorCount_pos_iff:
  "0 < interiorCount ps k \<longleftrightarrow> (\<exists>p \<in> set ps. \<exists>w \<in> set (interior p). id_v w = k)"
  unfolding interiorCount_def length_greater_0_conv by (auto simp: filter_empty_conv)

lemma interior_exists: "2 < length p \<longleftrightarrow> (\<exists>w. w \<in> set (interior p))"
proof -
  have "(\<exists>w. w \<in> set (interior p)) \<longleftrightarrow> interior p \<noteq> []" by (simp add: ex_in_conv)
  also have "\<dots> \<longleftrightarrow> 0 < length (interior p)" by simp
  also have "\<dots> \<longleftrightarrow> 2 < length p" by (simp add: length_interior)
  finally show ?thesis by simp
qed


lemma computeBetweenness_shape:
  assumes rnd: "\<forall>k. roundDouble (rnd k) = rnd k \<and> 0 \<le> rnd k \<and> rnd k < 1"
  shows "\<exists>B. computeBetweenness verses sampleSize rnd =
           Inr (js_sort (\<lambda>a b. js_sub (betweennessCentrality b) (betweennessCentrality a))
                  (map (betweennessEntryOf B
                          (js_or (Math_max (map of_count (Map_values B))) (Num 1))) verses)) \<and>
         distinct (map fst B) \<and> set (map fst B) = id_v ` set verses \<and>
         (\<forall>v. accumulated B v = interiorCount (sampledPaths verses sampleSize rnd) (id_v v))"
proof -
  let ?B0 = "new_Map (map (\<lambda>v. (id_v v, 0::nat)) verses)"
  let ?sample = "min (case sampleSize of None \<Rightarrow> 200 | Some s \<Rightarrow> s) (int (length verses))"
  have k0: "set (map fst ?B0) = id_v ` set verses"
    using keys_new_Map(1)[of "map (\<lambda>v. (id_v v, 0::nat)) verses"] by (simp add: image_image)
  have d0: "distinct (map fst ?B0)" by (rule keys_new_Map(2))
  have "set (map fst (fst (?B0, 0::nat))) = id_v ` set verses" using k0 by simp
  from sampleLoop_keys[OF refl rnd _ this, of ?sample 0]
  obtain acc' where run: "sampleLoop verses (verseMap_of verses) rnd ?sample 0 (?B0, 0) = Inr acc'"
    and keys: "map fst (fst acc') = map fst ?B0" by auto
  obtain B f where acc': "acc' = (B, f)" by (cases acc')
  have "distinct (map fst B)" "set (map fst B) = id_v ` set verses"
    using keys d0 k0 unfolding acc' by simp_all
  moreover have "computeBetweenness verses sampleSize rnd =
           Inr (js_sort (\<lambda>a b. js_sub (betweennessCentrality b) (betweennessCentrality a))
                  (map (betweennessEntryOf B
                          (js_or (Math_max (map of_count (Map_values B))) (Num 1))) verses))"
    unfolding computeBetweenness_def Let_def run acc' by simp
  moreover have "\<forall>v. accumulated B v = interiorCount (sampledPaths verses sampleSize rnd) (id_v v)"
  proof
    fix v
    have "B = foldl bumpInterior ?B0 (sampledPaths verses sampleSize rnd)"
      using sampleLoop_paths[OF refl run] unfolding acc' sampledPaths_def by simp
    then show "accumulated B v = interiorCount (sampledPaths verses sampleSize rnd) (id_v v)"
      by (simp add: accumulated_foldl_paths accumulated_init)
  qed
  ultimately show ?thesis by blast
qed

lemma maxAccumulator_map:
  "maxAccumulator (js_sort cmp (map (betweennessEntryOf B m) verses)) =
     Max (insert 0 (accumulated B ` set verses))"
  by (simp add: maxAccumulator_def set_js_sort image_image betweennessEntryOf_fields)

lemma maxBetweenness_value:
  assumes "distinct (map fst B)" "set (map fst B) = id_v ` set verses" "verses \<noteq> []"
  shows "js_or (Math_max (map of_count (Map_values B))) (Num 1) =
     Num (of_nat (if Max (insert 0 (accumulated B ` set verses)) = 0 then 1
                  else Max (insert 0 (accumulated B ` set verses))))"
proof -
  let ?S = "accumulated B ` set verses"
  have ne: "Map_values B \<noteq> []"
    using assms(2,3) by (auto simp: Map_values_def)
  have S: "set (Map_values B) = ?S" by (rule values_accumulated[OF assms(1,2)])
  have "?S \<noteq> {}" "finite ?S" using assms(3) by simp_all
  then have "Max (insert 0 ?S) = Max ?S" by (simp add: max_def)
  then have "Math_max (map of_count (Map_values B)) = of_count (Max (insert 0 ?S))"
    using Math_max_counts[OF ne] S by simp
  then show ?thesis by (simp add: js_or_def of_count_def)
qed

lemma normalised_score:
  assumes "a \<le> M"
  shows "js_div (of_count a) (Num (of_nat (if M = 0 then 1 else M))) =
      (if M = 0 then Num 0 else Num (roundDouble (of_nat a / of_nat M)))"
    "\<exists>q. js_div (of_count a) (Num (of_nat (if M = 0 then 1 else M))) = Num q \<and> 0 \<le> q \<and> q \<le> 1"
proof -
  show "js_div (of_count a) (Num (of_nat (if M = 0 then 1 else M))) =
      (if M = 0 then Num 0 else Num (roundDouble (of_nat a / of_nat M)))"
    using assms by (cases "M = 0") (auto simp: of_count_def)
  have "M \<noteq> 0 \<Longrightarrow> 0 \<le> roundDouble (of_nat a / of_nat M) \<and> roundDouble (of_nat a / of_nat M) \<le> 1"
    using assms by (intro roundDouble_ratio) simp_all
  then show "\<exists>q. js_div (of_count a) (Num (of_nat (if M = 0 then 1 else M))) = Num q \<and> 0 \<le> q \<and> q \<le> 1"
    using assms by (cases "M = 0") (auto simp: of_count_def)
qed

text \<open>
  Claim C4. Let every outcome of \<open>Math.random()\<close> be a double in \<open>[0, 1)\<close> and the
  betweenness slot of the cache be empty. Then \<open>calculateBetweennessCentrality\<close> returns
  one record per verse, and with the paths discovered for the sampled pairs of distinct
  verses (\<open>sampledPaths\<close>): the accumulator of every verse is the number of times the
  verse is strictly inside a discovered path; every score is a number between 0 and 1,
  hence non-negative; every score is the accumulator of the verse divided by the largest
  accumulator (the quotient as a double), or 0 when all accumulators are 0; a verse with
  the largest accumulator, when that is positive, has score exactly 1. If some discovered
  path has a strictly interior verse (more than 2 verses), the largest accumulator is
  positive and some verse has score exactly 1; if no discovered path has one, every score
  is 0. In the loop itself, a path that is missing or has at most 2 verses changes no
  accumulator, and a sampling run that counts no path with an interior verse
  (\<open>foundPaths\<close> unchanged) leaves all accumulators unchanged.
\<close>

theorem betweenness_normalised:
  "((\<forall>k. roundDouble (rnd k) = rnd k \<and> 0 \<le> rnd k \<and> rnd k < 1) \<and> betweenness c = None \<longrightarrow>
      (\<exists>scores. fst (calculateBetweennessCentrality c verses sampleSize rnd) = Inr scores \<and>
         mset (map verse.truncate scores) = mset verses \<and>
         (\<forall>e \<in> set scores.
            betweennessScore e = interiorCount (sampledPaths verses sampleSize rnd) (id_v e) \<and>
            (\<exists>q. betweennessCentrality e = Num q \<and> 0 \<le> q \<and> q \<le> 1) \<and>
            betweennessCentrality e =
              (if maxAccumulator scores = 0 then Num 0
               else Num (roundDouble
                           (of_nat (betweennessScore e) / of_nat (maxAccumulator scores)))) \<and>
            (betweennessScore e = maxAccumulator scores \<and> 0 < maxAccumulator scores \<longrightarrow>
               betweennessCentrality e = Num 1)) \<and>
         (0 < maxAccumulator scores \<longrightarrow> (\<exists>e \<in> set scores. betweennessCentrality e = Num 1)) \<and>
         ((\<exists>p \<in> set (sampledPaths verses sampleSize rnd). 2 < length p) \<longrightarrow>
            0 < maxAccumulator scores \<and> (\<exists>e \<in> set scores. betweennessCentrality e = Num 1)) \<and>
         ((\<forall>p \<in> set (sampledPaths verses sampleSize rnd). length p \<le> 2) \<longrightarrow>
            (\<forall>e \<in> set scores. betweennessCentrality e = Num 0)))) \<and>
   recordPath acc None = acc \<and>
   (length p \<le> 2 \<longrightarrow> recordPath acc (Some p) = acc) \<and>
   (sampleLoop verses vm rnd sample i acc = Inr acc' \<and> snd acc' = snd acc \<longrightarrow> acc' = acc)"
proof (intro conjI impI)
  show "recordPath acc None = acc" "length p \<le> 2 \<Longrightarrow> recordPath acc (Some p) = acc"
    using recordPath_short[of acc p] by simp_all
  show "acc' = acc" if "sampleLoop verses vm rnd sample i acc = Inr acc' \<and> snd acc' = snd acc"
    using sampleLoop_found[of verses vm rnd sample i acc acc'] that by simp
next
  assume a: "(\<forall>k. roundDouble (rnd k) = rnd k \<and> 0 \<le> rnd k \<and> rnd k < 1) \<and> betweenness c = None"
  then have rnd: "\<forall>k. roundDouble (rnd k) = rnd k \<and> 0 \<le> rnd k \<and> rnd k < 1"
    and c: "betweenness c = None" by simp_all
  let ?P = "sampledPaths verses sampleSize rnd"
  from computeBetweenness_shape[OF rnd, of verses sampleSize]
  obtain B where comp: "computeBetweenness verses sampleSize rnd =
           Inr (js_sort (\<lambda>a b. js_sub (betweennessCentrality b) (betweennessCentrality a))
                  (map (betweennessEntryOf B
                          (js_or (Math_max (map of_count (Map_values B))) (Num 1))) verses))"
    and dB: "distinct (map fst B)" and kB: "set (map fst B) = id_v ` set verses"
    and aB: "\<forall>v. accumulated B v = interiorCount ?P (id_v v)"
    by blast
  let ?m = "js_or (Math_max (map of_count (Map_values B))) (Num 1)"
  let ?scores = "js_sort (\<lambda>a b. js_sub (betweennessCentrality b) (betweennessCentrality a))
                  (map (betweennessEntryOf B ?m) verses)"
  let ?M = "Max (insert 0 (accumulated B ` set verses))"
  have res: "fst (calculateBetweennessCentrality c verses sampleSize rnd) = Inr ?scores"
    using c comp by (simp add: calculateBetweennessCentrality_def)
  have M: "maxAccumulator ?scores = ?M" by (rule maxAccumulator_map)
  have ms: "mset (map verse.truncate ?scores) = mset verses"
    by (simp only: mset_map mset_js_sort)
       (simp add: image_mset.compositionality o_def betweennessEntryOf_fields)
  have le: "accumulated B v \<le> ?M" if "v \<in> set verses" for v
    using that by (intro Max_ge) auto
  have entry: "betweennessScore e = interiorCount ?P (id_v e) \<and>
            (\<exists>q. betweennessCentrality e = Num q \<and> 0 \<le> q \<and> q \<le> 1) \<and>
            betweennessCentrality e =
              (if ?M = 0 then Num 0
               else Num (roundDouble (of_nat (betweennessScore e) / of_nat ?M)))"
    if e: "e \<in> set ?scores" for e
  proof -
    from e obtain v where v: "v \<in> set verses" "e = betweennessEntryOf B ?m v"
      by (auto simp: set_js_sort)
    have ne: "verses \<noteq> []" using v(1) by auto
    have m: "?m = Num (of_nat (if ?M = 0 then 1 else ?M))"
      by (rule maxBetweenness_value[OF dB kB ne])
    have e1: "betweennessScore e = interiorCount ?P (id_v e)"
      unfolding v(2) betweennessEntryOf_fields using aB by simp
    have e2: "(\<exists>q. betweennessCentrality e = Num q \<and> 0 \<le> q \<and> q \<le> 1) \<and>
            betweennessCentrality e =
              (if ?M = 0 then Num 0
               else Num (roundDouble (of_nat (betweennessScore e) / of_nat ?M)))"
      unfolding v(2) betweennessEntryOf_fields m
      using normalised_score[OF le[OF v(1)]] by simp
    show ?thesis by (rule conjI[OF e1 e2])
  qed
  have top: "\<exists>e \<in> set ?scores. betweennessCentrality e = Num 1" if pos: "0 < ?M"
  proof -
    have "?M \<in> insert 0 (accumulated B ` set verses)" by (intro Max_in) auto
    then obtain v where v: "v \<in> set verses" "accumulated B v = ?M" using pos by auto
    let ?e = "betweennessEntryOf B ?m v"
    have in_s: "?e \<in> set ?scores" using v(1) by (simp add: set_js_sort)
    have "betweennessScore ?e = ?M" using v(2) by (simp add: betweennessEntryOf_fields)
    then have "betweennessCentrality ?e = Num 1"
      using entry[OF in_s] pos by simp
    then show ?thesis using in_s by blast
  qed
  have found: "0 < ?M" if "\<exists>p \<in> set ?P. 2 < length p"
  proof -
    from that obtain p where p: "p \<in> set ?P" "2 < length p" by blast
    then obtain w where w: "w \<in> set (interior p)" using interior_exists[of p] by blast
    then have "w \<in> set p" by (rule interior_member)
    then have wv: "w \<in> set verses" using sampledPaths_elems[OF p(1)] by blast
    have "0 < interiorCount ?P (id_v w)"
      unfolding interiorCount_pos_iff using p(1) w by blast
    then have "0 < accumulated B w" using aB by simp
    then show ?thesis using le[OF wv] by linarith
  qed
  have none: "?M = 0" if np: "\<forall>p \<in> set ?P. length p \<le> 2"
  proof -
    have "accumulated B v = 0" for v
    proof (rule ccontr)
      assume "accumulated B v \<noteq> 0"
      then have "0 < interiorCount ?P (id_v v)" using aB by simp
      then obtain p w where "p \<in> set ?P" "w \<in> set (interior p)"
        unfolding interiorCount_pos_iff by blast
      then have "p \<in> set ?P" "2 < length p" using interior_exists[of p] by blast+
      then show False using np by fastforce
    qed
    then have "insert 0 (accumulated B ` set verses) = {0}" by auto
    then show ?thesis by (simp only: Max_singleton)
  qed
  show "\<exists>scores. fst (calculateBetweennessCentrality c verses sampleSize rnd) = Inr scores \<and>
         mset (map verse.truncate scores) = mset verses \<and>
         (\<forall>e \<in> set scores.
            betweennessScore e = interiorCount (sampledPaths verses sampleSize rnd) (id_v e) \<and>
            (\<exists>q. betweennessCentrality e = Num q \<and> 0 \<le> q \<and> q \<le> 1) \<and>
            betweennessCentrality e =
              (if maxAccumulator scores = 0 then Num 0
               else Num (roundDouble
                           (of_nat (betweennessScore e) / of_nat (maxAccumulator scores)))) \<and>
            (betweennessScore e = maxAccumulator scores \<and> 0 < maxAccumulator scores \<longrightarrow>
               betweennessCentrality e = Num 1)) \<and>
         (0 < maxAccumulator scores \<longrightarrow> (\<exists>e \<in> set scores. betweennessCentrality e = Num 1)) \<and>
         ((\<exists>p \<in> set (sampledPaths verses sampleSize rnd). 2 < length p) \<longrightarrow>
            0 < maxAccumulator scores \<and> (\<exists>e \<in> set scores. betweennessCentrality e = Num 1)) \<and>
         ((\<forall>p \<in> set (sampledPaths verses sampleSize rnd). length p \<le> 2) \<longrightarrow>
            (\<forall>e \<in> set scores. betweennessCentrality e = Num 0))"
  proof (intro exI[of _ ?scores] conjI ballI impI)
    show "fst (calculateBetweennessCentrality c verses sampleSize rnd) = Inr ?scores" by (rule res)
    show "mset (map verse.truncate ?scores) = mset verses" by (rule ms)
    show "\<exists>e \<in> set ?scores. betweennessCentrality e = Num 1" if "0 < maxAccumulator ?scores"
      using top that unfolding M by simp
    show "0 < maxAccumulator ?scores" if "\<exists>p \<in> set ?P. 2 < length p"
      using found[OF that] unfolding M .
    show "\<exists>e \<in> set ?scores. betweennessCentrality e = Num 1" if "\<exists>p \<in> set ?P. 2 < length p"
      using top[OF found[OF that]] .
    show "betweennessCentrality e = Num 0"
      if "\<forall>p \<in> set ?P. length p \<le> 2" "e \<in> set ?scores" for e
      using entry[OF that(2)] none[OF that(1)] by simp
    fix e assume e: "e \<in> set ?scores"
    show "betweennessScore e = interiorCount ?P (id_v e)"
      using entry[OF e] by blast
    show "\<exists>q. betweennessCentrality e = Num q \<and> 0 \<le> q \<and> q \<le> 1"
      using entry[OF e] by blast
    show "betweennessCentrality e =
              (if maxAccumulator ?scores = 0 then Num 0
               else Num (roundDouble
                           (of_nat (betweennessScore e) / of_nat (maxAccumulator ?scores))))"
      using entry[OF e] unfolding M by simp
    show "betweennessCentrality e = Num 1"
      if "betweennessScore e = maxAccumulator ?scores \<and> 0 < maxAccumulator ?scores"
      using entry[OF e] that unfolding M by simp
  qed
qed

text \<open>
  On the chain A - B - C one sample that draws A and then C discovers the path A, B, C:
  B is its one interior verse, gets accumulator 1 and score 1, and A and C get 0. One
  sample that draws A and then B discovers the path A, B, which has no interior verse:
  every score is 0.
\<close>

theorem betweenness_normalised_witness:
  "(\<forall>k. roundDouble (sampleAD k) = sampleAD k \<and> 0 \<le> sampleAD k \<and> sampleAD k < 1) \<and>
   (\<forall>k. roundDouble (sampleAB k) = sampleAB k \<and> 0 \<le> sampleAB k \<and> sampleAB k < 1) \<and>
   betweenness emptyCache = None \<and>
   map (map id_v) (sampledPaths chain3 (Some 1) sampleAD) = [[''A'', ''B'', ''C'']] \<and>
   (\<exists>scores. fst (calculateBetweennessCentrality emptyCache chain3 (Some 1) sampleAD) = Inr scores \<and>
      map id_v scores = [''B'', ''A'', ''C''] \<and>
      map betweennessScore scores = [1, 0, 0] \<and>
      0 < maxAccumulator scores \<and>
      (\<exists>e \<in> set scores. betweennessCentrality e = Num 1)) \<and>
   map (map id_v) (sampledPaths chain3 (Some 1) sampleAB) = [[''A'', ''B'']] \<and>
   (\<exists>scores. fst (calculateBetweennessCentrality emptyCache chain3 (Some 1) sampleAB) = Inr scores \<and>
      map id_v scores = [''A'', ''B'', ''C''] \<and>
      list_all (\<lambda>e. betweennessCentrality e = Num 0) scores)"
proof -
  have d: "roundDouble (3 / 4) = 3 / 4" "roundDouble (1 / 2) = 1 / 2" by code_simp+
  have h1: "\<forall>k. roundDouble (sampleAD k) = sampleAD k \<and> 0 \<le> sampleAD k \<and> sampleAD k < 1"
    by (simp add: sampleAD_def d)
  have g1: "\<forall>k. roundDouble (sampleAB k) = sampleAB k \<and> 0 \<le> sampleAB k \<and> sampleAB k < 1"
    by (simp add: sampleAB_def d)
  have h2: "betweenness emptyCache = None" by (simp add: emptyCache_def)
  have sp: "map (map id_v) (sampledPaths chain3 (Some 1) sampleAD) = [[''A'', ''B'', ''C'']]"
    by code_simp
  have h3: "\<exists>p \<in> set (sampledPaths chain3 (Some 1) sampleAD). 2 < length p"
    by code_simp
  have ev: "map (\<lambda>e. (id_v e, betweennessScore e))
      (case fst (calculateBetweennessCentrality emptyCache chain3 (Some 1) sampleAD) of
         Inl err \<Rightarrow> [] | Inr s \<Rightarrow> s) = [(''B'', 1), (''A'', 0), (''C'', 0)]"
    by code_simp
  from betweenness_normalised [of sampleAD emptyCache chain3 "Some 1", THEN conjunct1, THEN mp, OF conjI[OF h1 h2]]
  obtain scores where s: "fst (calculateBetweennessCentrality emptyCache chain3 (Some 1) sampleAD) = Inr scores"
    and top: "(\<exists>p \<in> set (sampledPaths chain3 (Some 1) sampleAD). 2 < length p) \<longrightarrow>
            0 < maxAccumulator scores \<and> (\<exists>e \<in> set scores. betweennessCentrality e = Num 1)"
    by (elim exE conjE) (rule that)
  have t: "0 < maxAccumulator scores" "\<exists>e \<in> set scores. betweennessCentrality e = Num 1"
    using top h3 by blast+
  have m: "map (\<lambda>e. (id_v e, betweennessScore e)) scores = [(''B'', 1), (''A'', 0), (''C'', 0)]"
    using ev unfolding s by simp
  have ids: "map id_v scores = [''B'', ''A'', ''C'']"
    using arg_cong[OF m, of "map fst"] by (simp add: o_def)
  have bs: "map betweennessScore scores = [1, 0, 0]"
    using arg_cong[OF m, of "map snd"] by (simp add: o_def)
  have first: "\<exists>scores. fst (calculateBetweennessCentrality emptyCache chain3 (Some 1) sampleAD) = Inr scores \<and>
      map id_v scores = [''B'', ''A'', ''C''] \<and>
      map betweennessScore scores = [1, 0, 0] \<and>
      0 < maxAccumulator scores \<and>
      (\<exists>e \<in> set scores. betweennessCentrality e = Num 1)"
    by (intro exI[of _ scores] conjI s ids bs t)
  have sq: "map (map id_v) (sampledPaths chain3 (Some 1) sampleAB) = [[''A'', ''B'']]"
    by code_simp
  have g3: "\<forall>p \<in> set (sampledPaths chain3 (Some 1) sampleAB). length p \<le> 2"
    by code_simp
  have ew: "map id_v
      (case fst (calculateBetweennessCentrality emptyCache chain3 (Some 1) sampleAB) of
         Inl err \<Rightarrow> [] | Inr s \<Rightarrow> s) = [''A'', ''B'', ''C'']"
    by code_simp
  from betweenness_normalised [of sampleAB emptyCache chain3 "Some 1", THEN conjunct1, THEN mp, OF conjI[OF g1 h2]]
  obtain scores' where s': "fst (calculateBetweennessCentrality emptyCache chain3 (Some 1) sampleAB) = Inr scores'"
    and zero: "(\<forall>p \<in> set (sampledPaths chain3 (Some 1) sampleAB). length p \<le> 2) \<longrightarrow>
            (\<forall>e \<in> set scores'. betweennessCentrality e = Num 0)"
    by (elim exE conjE) (rule that)
  have "\<forall>e \<in> set scores'. betweennessCentrality e = Num 0" using zero g3 by blast
  then have z: "list_all (\<lambda>e. betweennessCentrality e = Num 0) scores'"
    by (simp only: list_all_iff)
  have ids': "map id_v scores' = [''A'', ''B'', ''C'']" using ew unfolding s' by simp
  have second: "\<exists>scores. fst (calculateBetweennessCentrality emptyCache chain3 (Some 1) sampleAB) = Inr scores \<and>
      map id_v scores = [''A'', ''B'', ''C''] \<and>
      list_all (\<lambda>e. betweennessCentrality e = Num 0) scores"
    by (intro exI[of _ scores'] conjI s' ids' z)
  show ?thesis
    by (intro conjI h1 g1 h2 sp first sq second)
qed

section \<open>Community detection: labels and reported groups\<close>

lemma Map_has_get: "Map_has m k = (Map_get m k \<noteq> None)"
  by (simp add: Map_has_def Map_get_def)

lemma Map_get_groupStep:
  "Map_get (groupStep lbls g v) l =
     (if l = getLabel lbls (id_v v)
      then Some ((case Map_get g l of Some members \<Rightarrow> members | None \<Rightarrow> []) @ [v])
      else Map_get g l)"
  by (auto simp: groupStep_def Let_def Map_get_Map_set Map_has_get)

lemma distinct_groupStep: "distinct (map fst g) \<Longrightarrow> distinct (map fst (groupStep lbls g v))"
  by (simp add: groupStep_def Let_def distinct_keys_Map_set)

lemma foldl_groupStep:
  "distinct (map fst g) \<Longrightarrow>
   distinct (map fst (foldl (groupStep lbls) g vs)) \<and>
   (\<forall>l. Map_get (foldl (groupStep lbls) g vs) l =
      (case Map_get g l of
         None \<Rightarrow> if labelGroup lbls vs l = [] then None else Some (labelGroup lbls vs l)
       | Some members \<Rightarrow> Some (members @ labelGroup lbls vs l)))"
proof (induction vs arbitrary: g)
  case Nil
  then show ?case by (auto simp: labelGroup_def split: option.splits)
next
  case (Cons v vs)
  have d: "distinct (map fst (groupStep lbls g v))"
    by (rule distinct_groupStep[OF Cons.prems])
  show ?case
    using Cons.IH[OF d]
    by (auto simp: Map_get_groupStep labelGroup_def split: option.splits)
qed

lemma groupByLabel_get:
  "Map_get (groupByLabel lbls verses) l =
     (if labelGroup lbls verses l = [] then None else Some (labelGroup lbls verses l))"
  using foldl_groupStep[of "[]" lbls verses]
  by (simp add: groupByLabel_def Map_get_def)

lemma groupByLabel_distinct: "distinct (map fst (groupByLabel lbls verses))"
  using foldl_groupStep[of "[]" lbls verses] by (simp add: groupByLabel_def)

lemma groupByLabel_entries:
  "(l, members) \<in> set (groupByLabel lbls verses) \<longleftrightarrow>
     members = labelGroup lbls verses l \<and> members \<noteq> []"
proof -
  have "(l, members) \<in> set (groupByLabel lbls verses) \<longleftrightarrow>
      Map_get (groupByLabel lbls verses) l = Some members"
    unfolding Map_get_def using groupByLabel_distinct[of lbls verses] by simp
  then show ?thesis by (auto simp: groupByLabel_get)
qed

lemma js_positive_counts:
  "js_positive (js_sub (of_count b) (of_count a)) = (a < b)"
  by (simp add: of_count_def roundDouble_pos_iff)

lemma sorted_js_insert:
  assumes "sorted_wrt (\<lambda>a b. k b \<le> k a) ys"
  shows "sorted_wrt (\<lambda>a b. k b \<le> (k a :: nat))
           (js_insert (\<lambda>a b. js_sub (of_count (k b)) (of_count (k a))) e ys)"
  using assms
proof (induction ys)
  case Nil
  then show ?case by simp
next
  case (Cons y ys)
  show ?case
  proof (cases "k e < k y")
    case True
    then show ?thesis using Cons by (auto simp: js_positive_counts set_js_insert)
  next
    case False
    then show ?thesis using Cons by (auto simp: js_positive_counts)
  qed
qed

lemma sorted_js_sort:
  "sorted_wrt (\<lambda>a b. k b \<le> (k a :: nat))
     (js_sort (\<lambda>a b. js_sub (of_count (k b)) (of_count (k a))) xs)"
proof (induction xs)
  case Nil
  then show ?case by (simp add: js_sort_def)
next
  case (Cons e xs)
  then have "sorted_wrt (\<lambda>a b. k b \<le> k a)
      (js_insert (\<lambda>a b. js_sub (of_count (k b)) (of_count (k a))) e
         (js_sort (\<lambda>a b. js_sub (of_count (k b)) (of_count (k a))) xs))"
    by (rule sorted_js_insert)
  then show ?case by (simp add: js_sort_def)
qed

lemma distinct_keys_js_sort:
  "distinct (map fst (js_sort cmp xs)) = distinct (map fst xs)"
proof -
  have "mset (map fst (js_sort cmp xs)) = mset (map fst xs)"
    by (simp only: mset_map mset_js_sort)
  then show ?thesis by (rule mset_eq_imp_distinct_iff)
qed

lemma mostCommon_aux:
  "snd (foldl (\<lambda>(maxCount, maxLabel) (l, n).
                   if n > maxCount then (n, Some l) else (maxCount, maxLabel)) (m, cur) lc) = cur \<or>
   (\<exists>l. snd (foldl (\<lambda>(maxCount, maxLabel) (l, n).
                   if n > maxCount then (n, Some l) else (maxCount, maxLabel)) (m, cur) lc) = Some l)"
proof (induction lc arbitrary: m cur)
  case Nil
  then show ?case by simp
next
  case (Cons e lc)
  obtain l n where e: "e = (l, n)" by (cases e)
  show ?case
  proof (cases "n > m")
    case True
    then show ?thesis using Cons.IH[of n "Some l"] by (auto simp: e)
  next
    case False
    then show ?thesis using Cons.IH[of m cur] by (simp add: e)
  qed
qed

lemma mostCommon_cases: "mostCommon lc cur = cur \<or> (\<exists>l. mostCommon lc cur = Some l)"
  unfolding mostCommon_def by (rule mostCommon_aux)

lemma keys_Map_set_image: "fst ` set (Map_set m k v) = insert k (fst ` set m)"
  using arg_cong[OF keys_Map_set[of m k v], of set] by (auto split: if_splits)

lemma labelsOk_updateLabel:
  assumes "labelsOk verses lbls"
  shows "labelsOk verses (fst (updateLabel (lbls, changed) v))"
proof (cases "refCount v = 0 \<or>
    getLabel lbls (id_v v) = mostCommon (countLabels lbls (refs v)) (getLabel lbls (id_v v))")
  case True
  then show ?thesis using assms by (auto simp: Let_def)
next
  case False
  let ?m = "mostCommon (countLabels lbls (refs v)) (getLabel lbls (id_v v))"
  have res: "fst (updateLabel (lbls, changed) v) = Map_set lbls (id_v v) ?m"
    using False by (simp add: Let_def)
  have "?m \<noteq> None" using mostCommon_cases[of "countLabels lbls (refs v)" "getLabel lbls (id_v v)"] False
    by auto
  then have "\<forall>(k, l) \<in> set (Map_set lbls (id_v v) ?m). l \<noteq> None"
    using assms set_Map_set[of lbls "id_v v" ?m] unfolding labelsOk_def by auto
  then show ?thesis
    unfolding res labelsOk_def using assms
    by (auto simp: labelsOk_def keys_Map_set_image distinct_keys_Map_set)
qed

lemma labelsOk_foldl:
  "labelsOk verses (fst acc) \<Longrightarrow> labelsOk verses (fst (foldl updateLabel acc vs))"
proof (induction vs arbitrary: acc)
  case Nil
  then show ?case by simp
next
  case (Cons v vs)
  obtain lbls changed where acc: "acc = (lbls, changed)" by (cases acc)
  have "labelsOk verses (fst (updateLabel acc v))"
    using Cons.prems labelsOk_updateLabel unfolding acc by simp
  from Cons.IH[OF this] show ?case by simp
qed

lemma labelsOk_propagate:
  "labelsOk vs lbls \<Longrightarrow> labelsOk vs (propagate verses shuffle iterations iter lbls)"
proof (induction verses shuffle iterations iter lbls rule: propagate.induct)
  case (1 verses shuffle iterations iter lbls)
  note unf = propagate.simps[of verses shuffle iterations iter lbls]
  show ?case
  proof (cases "int iter < iterations")
    case False
    then show ?thesis using "1.prems" by (simp add: unf)
  next
    case True
    obtain lbls' changed where f: "foldl updateLabel (lbls, 0) (shuffle iter verses) = (lbls', changed)"
      by (cases "foldl updateLabel (lbls, 0) (shuffle iter verses)")
    have ok': "labelsOk vs lbls'"
      using labelsOk_foldl[of vs "(lbls, 0)" "shuffle iter verses"] "1.prems" f by simp
    show ?thesis
    proof (cases "changed = 0")
      case True
      then show ?thesis using \<open>int iter < iterations\<close> f ok' by (simp add: unf)
    next
      case False
      have "labelsOk vs (propagate verses shuffle iterations (iter + 1) lbls')"
        using "1.IH"[OF True f[symmetric] False ok'] .
      then show ?thesis using True f False by (simp add: unf)
    qed
  qed
qed

lemma labelsOk_init: "labelsOk verses (new_Map (map (\<lambda>v. (id_v v, Some (id_v v))) verses))"
proof -
  let ?es = "map (\<lambda>v. (id_v v, Some (id_v v))) verses"
  have "\<forall>(k, l) \<in> set (new_Map ?es). l \<noteq> None"
    unfolding new_Map_def by (rule foldl_Map_set_prop) auto
  moreover have "fst ` set (new_Map ?es) = id_v ` set verses"
    using keys_new_Map(1)[of ?es] by (simp add: image_image)
  ultimately show ?thesis
    unfolding labelsOk_def using keys_new_Map(2)[of ?es] by auto
qed

lemma labelsOk_getLabel:
  assumes "labelsOk verses lbls" "v \<in> set verses"
  shows "\<exists>l. getLabel lbls (id_v v) = Some l"
proof -
  have "id_v v \<in> fst ` set lbls" using assms unfolding labelsOk_def by auto
  then obtain l where l: "(id_v v, l) \<in> set lbls" by auto
  then have "map_of lbls (id_v v) = Some l" using assms(1) unfolding labelsOk_def by simp
  moreover have "l \<noteq> None" using assms(1) l unfolding labelsOk_def by auto
  ultimately show ?thesis by (auto simp: getLabel_def Map_get_def)
qed

lemma computeCommunities_fields:
  "labels (computeCommunities verses iterations shuffle) =
     propagate verses shuffle (case iterations of None \<Rightarrow> 5 | Some n \<Rightarrow> n) 0
       (new_Map (map (\<lambda>v. (id_v v, Some (id_v v))) verses))"
  "communityResult.communities (computeCommunities verses iterations shuffle) =
     js_sort (\<lambda>a b. js_sub (of_count (length (snd b))) (of_count (length (snd a))))
       (filter (\<lambda>(l, members). length members \<ge> 3)
          (groupByLabel (labels (computeCommunities verses iterations shuffle)) verses))"
  "communityCount (computeCommunities verses iterations shuffle) =
     length (communityResult.communities (computeCommunities verses iterations shuffle))"
  by (simp_all add: computeCommunities_def Let_def)

text \<open>
  Claim C6. When the communities slot of the cache is empty, the result of
  \<open>detectCommunities\<close> is such that: every verse has a (defined) final label, and the
  label map holds one entry per id; every reported community is the group of all verses
  with its label, has at least 3 members, and consists of verses of the input; every
  label group with at least 3 members is reported; no label is reported twice; the
  reported communities are in descending order of member count; two different reported
  communities share no verse; and \<open>communityCount\<close> is the number of reported
  communities.
\<close>

theorem detectCommunities_partition:
  "statsCache.communities c = None \<longrightarrow>
     (let R = fst (detectCommunities c verses iterations shuffle);
          CS = communityResult.communities R
      in (\<forall>v \<in> set verses. \<exists>l. getLabel (labels R) (id_v v) = Some l) \<and>
         distinct (map fst (labels R)) \<and>
         (\<forall>(l, members) \<in> set CS.
            members = labelGroup (labels R) verses l \<and> 3 \<le> length members \<and>
            set members \<subseteq> set verses) \<and>
         (\<forall>l. 3 \<le> length (labelGroup (labels R) verses l) \<longrightarrow>
              (l, labelGroup (labels R) verses l) \<in> set CS) \<and>
         distinct (map fst CS) \<and>
         sorted_wrt (\<lambda>a b. length (snd b) \<le> length (snd a)) CS \<and>
         (\<forall>i j. i < j \<and> j < length CS \<longrightarrow> set (snd (CS ! i)) \<inter> set (snd (CS ! j)) = {}) \<and>
         communityCount R = length CS)"
proof
  assume c: "statsCache.communities c = None"
  let ?R = "computeCommunities verses iterations shuffle"
  let ?L = "labels ?R"
  let ?G = "groupByLabel ?L verses"
  let ?CS = "communityResult.communities ?R"
  have R: "fst (detectCommunities c verses iterations shuffle) = ?R"
    using c by (simp add: detectCommunities_def Let_def)
  have ok: "labelsOk verses ?L"
    unfolding computeCommunities_fields(1) by (rule labelsOk_propagate[OF labelsOk_init])
  have setCS: "set ?CS = {e \<in> set ?G. 3 \<le> length (snd e)}"
    unfolding computeCommunities_fields(2) by (auto simp: set_js_sort)
  have p1: "\<forall>v \<in> set verses. \<exists>l. getLabel ?L (id_v v) = Some l"
    using labelsOk_getLabel[OF ok] by blast
  have p2: "distinct (map fst ?L)" using ok unfolding labelsOk_def by simp
  have p3: "\<forall>(l, members) \<in> set ?CS.
            members = labelGroup ?L verses l \<and> 3 \<le> length members \<and> set members \<subseteq> set verses"
    unfolding setCS by (auto simp: groupByLabel_entries labelGroup_def)
  have p4: "\<forall>l. 3 \<le> length (labelGroup ?L verses l) \<longrightarrow> (l, labelGroup ?L verses l) \<in> set ?CS"
    unfolding setCS by (auto simp: groupByLabel_entries)
  have p5: "distinct (map fst ?CS)"
    unfolding computeCommunities_fields(2) distinct_keys_js_sort
    by (rule distinct_map_filter) (rule groupByLabel_distinct)
  have p6: "sorted_wrt (\<lambda>a b. length (snd b) \<le> length (snd a)) ?CS"
    unfolding computeCommunities_fields(2) by (rule sorted_js_sort)
  have p7: "\<forall>i j. i < j \<and> j < length ?CS \<longrightarrow> set (snd (?CS ! i)) \<inter> set (snd (?CS ! j)) = {}"
  proof (intro allI impI)
    fix i j assume ij: "i < j \<and> j < length ?CS"
    then have i: "i < length ?CS" and j: "j < length ?CS" and ne: "i \<noteq> j" by simp_all
    have keys: "fst (?CS ! i) \<noteq> fst (?CS ! j)"
      using nth_eq_iff_index_eq[OF p5, of i j] i j ne by simp
    have mi: "snd (?CS ! i) = labelGroup ?L verses (fst (?CS ! i))"
      using p3 nth_mem[OF i] by (cases "?CS ! i") auto
    have mj: "snd (?CS ! j) = labelGroup ?L verses (fst (?CS ! j))"
      using p3 nth_mem[OF j] by (cases "?CS ! j") auto
    show "set (snd (?CS ! i)) \<inter> set (snd (?CS ! j)) = {}"
      unfolding mi mj using keys by (auto simp: labelGroup_def)
  qed
  have p8: "communityCount ?R = length ?CS" by (rule computeCommunities_fields(3))
  show "let R = fst (detectCommunities c verses iterations shuffle);
          CS = communityResult.communities R
      in (\<forall>v \<in> set verses. \<exists>l. getLabel (labels R) (id_v v) = Some l) \<and>
         distinct (map fst (labels R)) \<and>
         (\<forall>(l, members) \<in> set CS.
            members = labelGroup (labels R) verses l \<and> 3 \<le> length members \<and>
            set members \<subseteq> set verses) \<and>
         (\<forall>l. 3 \<le> length (labelGroup (labels R) verses l) \<longrightarrow>
              (l, labelGroup (labels R) verses l) \<in> set CS) \<and>
         distinct (map fst CS) \<and>
         sorted_wrt (\<lambda>a b. length (snd b) \<le> length (snd a)) CS \<and>
         (\<forall>i j. i < j \<and> j < length CS \<longrightarrow> set (snd (CS ! i)) \<inter> set (snd (CS ! j)) = {}) \<and>
         communityCount R = length CS"
    unfolding Let_def R using p1 p2 p3 p4 p5 p6 p7 p8 by (intro conjI)
qed


theorem detectCommunities_partition_witness:
  "statsCache.communities emptyCache = None \<and>
   map (\<lambda>(l, ms). (l, map id_v ms))
     (communityResult.communities
        (fst (detectCommunities emptyCache completeGraph4 (Some 5) inputOrder))) =
     [(Some ''2'', [''1'', ''2'', ''3'', ''4''])] \<and>
   communityCount (fst (detectCommunities emptyCache completeGraph4 (Some 5) inputOrder)) = 1 \<and>
   (\<exists>l. getLabel (labels (fst (detectCommunities emptyCache completeGraph4 (Some 5) inputOrder)))
          (id_v (hd completeGraph4)) = Some l)"
proof -
  have h: "statsCache.communities emptyCache = None" by (simp add: emptyCache_def)
  have ev: "map (\<lambda>(l, ms). (l, map id_v ms))
     (communityResult.communities
        (fst (detectCommunities emptyCache completeGraph4 (Some 5) inputOrder))) =
     [(Some ''2'', [''1'', ''2'', ''3'', ''4''])]"
    by code_simp
  have mem: "hd completeGraph4 \<in> set completeGraph4" by (simp add: completeGraph4_def)
  have len: "length (communityResult.communities
        (fst (detectCommunities emptyCache completeGraph4 (Some 5) inputOrder))) = 1"
    using arg_cong[OF ev, of length] by simp
  show ?thesis
    using h ev mem len
      detectCommunities_partition [of emptyCache completeGraph4 "Some 5" inputOrder]
    unfolding Let_def by auto
qed

section \<open>Degree centrality and network statistics on degenerate input\<close>

lemma centralityEntryOf_fields:
  "verse.truncate (centralityEntryOf m v) = v"
  "normalizedDegree (centralityEntryOf m v) = refCount v"
  "refCount (centralityEntryOf m v) = refCount v"
  "degreeCentrality (centralityEntryOf m v) = js_div (of_count (refCount v)) m"
  by (simp_all add: centralityEntryOf_def verse.defs centralityEntry.defs)

lemma degreeCentrality_range:
  assumes c: "centrality c = None" and pos: "\<exists>v \<in> set verses. 0 < refCount v"
    and e: "e \<in> set (fst (calculateDegreeCentrality c verses))"
  shows "(\<exists>q. degreeCentrality e = Num q \<and> 0 \<le> q \<and> q \<le> 1) \<and>
         (refCount e = Max (refCount ` set verses) \<longrightarrow> degreeCentrality e = Num 1)"
proof -
  let ?M = "Max (refCount ` set verses)"
  have ne: "map refCount verses \<noteq> []" using pos by auto
  have mx: "Math_max (map (\<lambda>v. of_count (refCount v)) verses) = of_count ?M"
    using Math_max_counts[OF ne] by (simp add: o_def)
  have res: "fst (calculateDegreeCentrality c verses) =
      js_sort (\<lambda>a b. js_sub (degreeCentrality b) (degreeCentrality a))
        (map (centralityEntryOf (of_count ?M)) verses)"
    using c by (simp add: calculateDegreeCentrality_def computeDegreeCentrality_def Let_def mx)
  from e obtain v where v: "v \<in> set verses" "e = centralityEntryOf (of_count ?M) v"
    unfolding res by (auto simp: set_js_sort)
  have le: "refCount v \<le> ?M" using v(1) by (intro Max_ge) auto
  obtain w where w: "w \<in> set verses" "0 < refCount w" using pos by blast
  have "refCount w \<le> ?M" using w(1) by (intro Max_ge) auto
  then have Mpos: "?M \<noteq> 0" using w(2) by linarith
  have "0 \<le> roundDouble (of_nat (refCount v) / of_nat ?M) \<and>
      roundDouble (of_nat (refCount v) / of_nat ?M) \<le> 1"
    using le Mpos by (intro roundDouble_ratio) simp_all
  then show ?thesis
    unfolding v(2) centralityEntryOf_fields using Mpos by (simp add: of_count_def)
qed

text \<open>
  Claim C1, evaluated where it fails. For a single verse without references every
  \<open>refCount\<close> is 0, \<open>maxRefs\<close> is 0, and the score \<open>0 / 0\<close> is NaN, not 0. (When some verse
  has references, \<open>degreeCentrality_range\<close> above gives the rest of the claim: every score
  lies between 0 and 1 and a verse of maximal \<open>refCount\<close> has score 1.)
\<close>

theorem degreeCentrality_all_zero_is_NaN:
  "map degreeCentrality (fst (calculateDegreeCentrality emptyCache isolated1)) = [NaN]"
  by code_simp

text \<open>
  Claim C3, evaluated where it fails. On the empty verse list \<open>getNetworkStatistics\<close>
  divides 0 by 0 twice: the average degree and the density are NaN, and the median and
  maximal degree are \<open>undefined\<close>. On a single verse without references the density,
  the degree centrality of the top verse and the hub score are NaN.
\<close>

theorem networkStatistics_degenerate_is_NaN:
  "avgDegree (fst (getNetworkStatistics emptyCache [])) = NaN \<and>
   density (fst (getNetworkStatistics emptyCache [])) = NaN \<and>
   medianDegree (fst (getNetworkStatistics emptyCache [])) = None \<and>
   maxDegree (fst (getNetworkStatistics emptyCache [])) = None \<and>
   density (fst (getNetworkStatistics emptyCache isolated1)) = NaN \<and>
   map centrality_t (topVerses (fst (getNetworkStatistics emptyCache isolated1))) = [NaN] \<and>
   map hubScore (case fst (identifyHubs emptyCache isolated1 None) of Inl err \<Rightarrow> [] | Inr hs \<Rightarrow> hs)
     = [NaN]"
  by code_simp

section \<open>The cache: a filled slot answers every later call\<close>

lemma slotsKept_refl: "slotsKept c c"
  by (simp add: slotsKept_def)

lemma slotsKept_trans: "slotsKept c c' \<Longrightarrow> slotsKept c' c'' \<Longrightarrow> slotsKept c c''"
  by (auto simp: slotsKept_def)

lemma kept_centrality: "slotsKept c (snd (calculateDegreeCentrality c verses))"
  by (auto simp: slotsKept_def calculateDegreeCentrality_def Let_def split: option.splits)

lemma kept_betweenness: "slotsKept c (snd (calculateBetweennessCentrality c verses s rnd))"
  by (auto simp: slotsKept_def calculateBetweennessCentrality_def split: option.splits sum.splits)

lemma kept_clustering: "slotsKept c (snd (calculateClusteringCoefficient c verses))"
  by (auto simp: slotsKept_def calculateClusteringCoefficient_def Let_def split: option.splits)

lemma kept_communities: "slotsKept c (snd (detectCommunities c verses n shuffle))"
  by (auto simp: slotsKept_def detectCommunities_def Let_def split: option.splits)

lemma kept_hubs: "slotsKept c (snd (identifyHubs c verses topN))"
proof (cases "statsCache.hubs c")
  case (Some cached)
  then show ?thesis by (simp add: identifyHubs_def slotsKept_refl)
next
  case None
  obtain cd c1 where a: "calculateDegreeCentrality c verses = (cd, c1)"
    by (cases "calculateDegreeCentrality c verses")
  obtain cl c2 where b: "calculateClusteringCoefficient c1 verses = (cl, c2)"
    by (cases "calculateClusteringCoefficient c1 verses")
  have k1: "slotsKept c c1" using kept_centrality[of c verses] a by simp
  have k2: "slotsKept c1 c2" using kept_clustering[of c1 verses] b by simp
  have k: "slotsKept c c2" by (rule slotsKept_trans[OF k1 k2])
  have h2: "statsCache.hubs c2 = None"
    using None a b
    by (auto simp: calculateDegreeCentrality_def calculateClusteringCoefficient_def Let_def
        split: option.splits)
  have "slotsKept c2 (c2\<lparr>statsCache.hubs := Some r\<rparr>)" for r
    by (simp add: slotsKept_def h2)
  then have "slotsKept c (c2\<lparr>statsCache.hubs := Some r\<rparr>)" for r
    using k slotsKept_trans by blast
  then show ?thesis
    using None a b k by (simp add: identifyHubs_def Let_def split: sum.splits)
qed

lemma kept_network: "slotsKept c (snd (getNetworkStatistics c verses))"
proof -
  have "snd (getNetworkStatistics c verses) = snd (calculateDegreeCentrality c verses)"
    by (simp add: getNetworkStatistics_def Let_def split: prod.splits)
  then show ?thesis using kept_centrality by simp
qed

lemma kept_lastComputed: "slotsKept c (c\<lparr>lastComputed := t\<rparr>)"
  by (simp add: slotsKept_def)

lemma kept_all: "slotsKept c (snd (computeAllStats c verses rnd shuffle now))"
proof -
  obtain net c1 where s1: "getNetworkStatistics c verses = (net, c1)"
    by (cases "getNetworkStatistics c verses")
  obtain cen c2 where s2: "calculateDegreeCentrality c1 verses = (cen, c2)"
    by (cases "calculateDegreeCentrality c1 verses")
  obtain b c3 where s3: "calculateBetweennessCentrality c2 verses (Some 200) rnd = (b, c3)"
    by (cases "calculateBetweennessCentrality c2 verses (Some 200) rnd")
  obtain clu c4 where s4: "calculateClusteringCoefficient c3 verses = (clu, c4)"
    by (cases "calculateClusteringCoefficient c3 verses")
  obtain h c5 where s5: "identifyHubs c4 verses (Some 30) = (h, c5)"
    by (cases "identifyHubs c4 verses (Some 30)")
  obtain com c6 where s6: "detectCommunities c5 verses (Some 5) shuffle = (com, c6)"
    by (cases "detectCommunities c5 verses (Some 5) shuffle")
  have k1: "slotsKept c c1" using kept_network[of c verses] s1 by simp
  have k2: "slotsKept c c2"
    using slotsKept_trans[OF k1] kept_centrality[of c1 verses] s2 by simp
  have k3: "slotsKept c c3"
    using slotsKept_trans[OF k2] kept_betweenness[of c2 verses "Some 200" rnd] s3 by simp
  have k4: "slotsKept c c4"
    using slotsKept_trans[OF k3] kept_clustering[of c3 verses] s4 by simp
  have k5: "slotsKept c c5"
    using slotsKept_trans[OF k4] kept_hubs[of c4 verses "Some 30"] s5 by simp
  have k6: "slotsKept c c6"
    using slotsKept_trans[OF k5] kept_communities[of c5 verses "Some 5" shuffle] s6 by simp
  have k7: "slotsKept c (c6\<lparr>lastComputed := Some now\<rparr>)"
    using slotsKept_trans[OF k6 kept_lastComputed] .
  show ?thesis
    using k3 k5 k7
    by (cases b; cases h) (simp_all add: computeAllStats_def s1 s2 s3 s4 s5 s6)
qed

lemma kept_afterCall: "op \<noteq> ClearCache \<Longrightarrow> slotsKept c (afterCall c op)"
  by (cases op)
     (simp_all add: kept_centrality kept_betweenness kept_clustering kept_communities kept_hubs
        kept_network kept_all)

lemma kept_calls:
  "\<forall>op \<in> set calls. op \<noteq> ClearCache \<Longrightarrow> slotsKept c (foldl afterCall c calls)"
proof (induction calls arbitrary: c)
  case Nil
  then show ?case by (simp add: slotsKept_refl)
next
  case (Cons op calls)
  have "slotsKept c (afterCall c op)" using Cons.prems by (simp add: kept_afterCall)
  moreover have "slotsKept (afterCall c op) (foldl afterCall (afterCall c op) calls)"
    using Cons by simp
  ultimately show ?case using slotsKept_trans by simp
qed

lemma filled_centrality:
  "statsCache.centrality (snd (calculateDegreeCentrality c verses)) =
     Some (fst (calculateDegreeCentrality c verses))"
  by (simp add: calculateDegreeCentrality_def Let_def split: option.splits)

lemma filled_clustering:
  "statsCache.clustering (snd (calculateClusteringCoefficient c verses)) =
     Some (fst (calculateClusteringCoefficient c verses))"
  by (simp add: calculateClusteringCoefficient_def Let_def split: option.splits)

lemma filled_communities:
  "statsCache.communities (snd (detectCommunities c verses n shuffle)) =
     Some (fst (detectCommunities c verses n shuffle))"
  by (simp add: detectCommunities_def Let_def split: option.splits)

lemma filled_betweenness:
  "fst (calculateBetweennessCentrality c verses s rnd) = Inr r \<Longrightarrow>
   statsCache.betweenness (snd (calculateBetweennessCentrality c verses s rnd)) = Some r"
  by (auto simp: calculateBetweennessCentrality_def split: option.splits sum.splits)

lemma filled_hubs:
  "fst (identifyHubs c verses topN) = Inr r \<Longrightarrow>
   statsCache.hubs (snd (identifyHubs c verses topN)) = Some r"
  by (auto simp: identifyHubs_def Let_def split: option.splits sum.splits prod.splits)

lemma cached_centrality:
  "statsCache.centrality c = Some r \<Longrightarrow> calculateDegreeCentrality c verses = (r, c)"
  by (simp add: calculateDegreeCentrality_def)

lemma cached_betweenness:
  "statsCache.betweenness c = Some r \<Longrightarrow>
   calculateBetweennessCentrality c verses s rnd = (Inr r, c)"
  by (simp add: calculateBetweennessCentrality_def)

lemma cached_clustering:
  "statsCache.clustering c = Some r \<Longrightarrow> calculateClusteringCoefficient c verses = (r, c)"
  by (simp add: calculateClusteringCoefficient_def)

lemma cached_hubs:
  "statsCache.hubs c = Some r \<Longrightarrow> identifyHubs c verses topN = (Inr r, c)"
  by (simp add: identifyHubs_def)

lemma cached_communities:
  "statsCache.communities c = Some r \<Longrightarrow> detectCommunities c verses n shuffle = (r, c)"
  by (simp add: detectCommunities_def)

text \<open>
  Claim C10. Let one of \<open>calculateDegreeCentrality\<close>, \<open>calculateBetweennessCentrality\<close>,
  \<open>calculateClusteringCoefficient\<close>, \<open>identifyHubs\<close>, \<open>detectCommunities\<close> have produced a
  result from some cache, and let any sequence of calls of the module other than
  \<open>clearCache\<close> follow. Then a call of the same function, with any arguments, returns
  that result and leaves the cache as it is. After \<open>clearCache\<close> the five result slots
  (and the time stamp) are all empty.
\<close>

theorem cached_result_until_clearCache:
  "((\<forall>op \<in> set calls. op \<noteq> ClearCache) \<longrightarrow>
      calculateDegreeCentrality
          (foldl afterCall (snd (calculateDegreeCentrality c verses)) calls) verses' =
        (fst (calculateDegreeCentrality c verses),
         foldl afterCall (snd (calculateDegreeCentrality c verses)) calls) \<and>
      (\<forall>r. fst (calculateBetweennessCentrality c verses sampleSize rnd) = Inr r \<longrightarrow>
         calculateBetweennessCentrality
             (foldl afterCall (snd (calculateBetweennessCentrality c verses sampleSize rnd)) calls)
             verses' sampleSize' rnd' =
           (Inr r,
            foldl afterCall (snd (calculateBetweennessCentrality c verses sampleSize rnd)) calls)) \<and>
      calculateClusteringCoefficient
          (foldl afterCall (snd (calculateClusteringCoefficient c verses)) calls) verses' =
        (fst (calculateClusteringCoefficient c verses),
         foldl afterCall (snd (calculateClusteringCoefficient c verses)) calls) \<and>
      (\<forall>r. fst (identifyHubs c verses topN) = Inr r \<longrightarrow>
         identifyHubs (foldl afterCall (snd (identifyHubs c verses topN)) calls) verses' topN' =
           (Inr r, foldl afterCall (snd (identifyHubs c verses topN)) calls)) \<and>
      detectCommunities
          (foldl afterCall (snd (detectCommunities c verses iterations shuffle)) calls)
          verses' iterations' shuffle' =
        (fst (detectCommunities c verses iterations shuffle),
         foldl afterCall (snd (detectCommunities c verses iterations shuffle)) calls)) \<and>
   statsCache.centrality (clearCache c) = None \<and>
   statsCache.betweenness (clearCache c) = None \<and>
   statsCache.clustering (clearCache c) = None \<and>
   statsCache.communities (clearCache c) = None \<and>
   statsCache.hubs (clearCache c) = None \<and>
   lastComputed (clearCache c) = None"
proof (intro conjI impI allI)
  show "statsCache.centrality (clearCache c) = None" "statsCache.betweenness (clearCache c) = None"
    "statsCache.clustering (clearCache c) = None" "statsCache.communities (clearCache c) = None"
    "statsCache.hubs (clearCache c) = None" "lastComputed (clearCache c) = None"
    by (simp_all add: clearCache_def emptyCache_def)
next
  assume calls: "\<forall>op \<in> set calls. op \<noteq> ClearCache"
  note kept = kept_calls[OF calls]
  {
    let ?c1 = "snd (calculateDegreeCentrality c verses)"
    have "statsCache.centrality (foldl afterCall ?c1 calls) = Some (fst (calculateDegreeCentrality c verses))"
      using kept[of ?c1] filled_centrality[of c verses] by (simp add: slotsKept_def)
    then show "calculateDegreeCentrality (foldl afterCall ?c1 calls) verses' =
        (fst (calculateDegreeCentrality c verses), foldl afterCall ?c1 calls)"
      by (rule cached_centrality)
  }
  {
    let ?c1 = "snd (calculateClusteringCoefficient c verses)"
    have "statsCache.clustering (foldl afterCall ?c1 calls) = Some (fst (calculateClusteringCoefficient c verses))"
      using kept[of ?c1] filled_clustering[of c verses] by (simp add: slotsKept_def)
    then show "calculateClusteringCoefficient (foldl afterCall ?c1 calls) verses' =
        (fst (calculateClusteringCoefficient c verses), foldl afterCall ?c1 calls)"
      by (rule cached_clustering)
  }
  {
    let ?c1 = "snd (detectCommunities c verses iterations shuffle)"
    have "statsCache.communities (foldl afterCall ?c1 calls) =
        Some (fst (detectCommunities c verses iterations shuffle))"
      using kept[of ?c1] filled_communities[of c verses iterations shuffle]
      by (simp add: slotsKept_def)
    then show "detectCommunities (foldl afterCall ?c1 calls) verses' iterations' shuffle' =
        (fst (detectCommunities c verses iterations shuffle), foldl afterCall ?c1 calls)"
      by (rule cached_communities)
  }
  {
    fix r assume r: "fst (calculateBetweennessCentrality c verses sampleSize rnd) = Inr r"
    let ?c1 = "snd (calculateBetweennessCentrality c verses sampleSize rnd)"
    have "statsCache.betweenness (foldl afterCall ?c1 calls) = Some r"
      using kept[of ?c1] filled_betweenness[OF r] by (simp add: slotsKept_def)
    then show "calculateBetweennessCentrality (foldl afterCall ?c1 calls) verses' sampleSize' rnd' =
        (Inr r, foldl afterCall ?c1 calls)"
      by (rule cached_betweenness)
  }
  {
    fix r assume r: "fst (identifyHubs c verses topN) = Inr r"
    let ?c1 = "snd (identifyHubs c verses topN)"
    have "statsCache.hubs (foldl afterCall ?c1 calls) = Some r"
      using kept[of ?c1] filled_hubs[OF r] by (simp add: slotsKept_def)
    then show "identifyHubs (foldl afterCall ?c1 calls) verses' topN' =
        (Inr r, foldl afterCall ?c1 calls)"
      by (rule cached_hubs)
  }
qed

theorem cached_result_until_clearCache_witness:
  "CalculateClusteringCoefficient completeGraph4 \<noteq> ClearCache \<and>
   GetNetworkStatistics chain7 \<noteq> ClearCache \<and>
   fst (calculateDegreeCentrality
          (foldl afterCall (snd (calculateDegreeCentrality emptyCache chain4))
             [CalculateClusteringCoefficient completeGraph4, GetNetworkStatistics chain7])
          completeGraph4) =
     fst (calculateDegreeCentrality emptyCache chain4) \<and>
   map id_v (fst (calculateDegreeCentrality emptyCache chain4)) = [''B'', ''C'', ''A'', ''D'']"
proof -
  have ev: "map id_v (fst (calculateDegreeCentrality emptyCache chain4)) = [''B'', ''C'', ''A'', ''D'']"
    by code_simp
  show ?thesis
    using ev
      cached_result_until_clearCache
        [where calls = "[CalculateClusteringCoefficient completeGraph4, GetNetworkStatistics chain7]"
           and c = emptyCache and verses = chain4 and verses' = completeGraph4]
    by simp
qed

section \<open>Sample size and iteration count that are not positive\<close>

lemma js_sort_id:
  "\<forall>a \<in> set xs. \<forall>b \<in> set xs. \<not> js_positive (cmp a b) \<Longrightarrow> js_sort cmp xs = xs"
proof (induction xs)
  case Nil
  then show ?case by (simp add: js_sort_def)
next
  case (Cons a xs)
  then have "js_sort cmp xs = xs" by simp
  then have "js_sort cmp (a # xs) = js_insert cmp a xs" by (simp add: js_sort_def)
  also have "\<dots> = a # xs" using Cons.prems by (cases xs) simp_all
  finally show ?case .
qed

lemma values_init: "set (Map_values (new_Map (map (\<lambda>v. (id_v v, 0::nat)) verses))) \<subseteq> {0}"
proof -
  have "\<forall>(k, n) \<in> set (new_Map (map (\<lambda>v. (id_v v, 0::nat)) verses)). n = 0"
    unfolding new_Map_def by (rule foldl_Map_set_prop) auto
  then show ?thesis unfolding Map_values_def by auto
qed

lemma computeBetweenness_no_sample:
  assumes "s \<le> 0"
  shows "computeBetweenness verses (Some s) rnd =
     Inr (map (\<lambda>v. verse.extend v (betweennessEntry.fields (Num 0) 0)) verses)"
proof -
  let ?B0 = "new_Map (map (\<lambda>v. (id_v v, 0::nat)) verses)"
  let ?m = "js_or (Math_max (map of_count (Map_values ?B0))) (Num 1)"
  have sample: "min s (int (length verses)) \<le> 0" using assms by simp
  have run: "sampleLoop verses (verseMap_of verses) rnd (min s (int (length verses))) 0 (?B0, 0)
      = Inr (?B0, 0)"
    using assms by (simp add: sampleLoop.simps)
  have entry: "betweennessEntryOf ?B0 ?m v = verse.extend v (betweennessEntry.fields (Num 0) 0)"
    if "v \<in> set verses" for v
  proof -
    have ne: "Map_values ?B0 \<noteq> []"
      using that keys_new_Map(1)[of "map (\<lambda>v. (id_v v, 0::nat)) verses"]
      by (auto simp: Map_values_def)
    then have "set (Map_values ?B0) = {0}" using values_init[of verses] by (cases "Map_values ?B0") auto
    then have "Max (set (Map_values ?B0)) = 0" by simp
    then have "?m = Num 1" using Math_max_counts[OF ne] by (simp add: js_or_def of_count_def)
    then show ?thesis by (simp add: betweennessEntryOf_def accumulated_init of_count_def)
  qed
  let ?scores = "map (\<lambda>v. verse.extend v (betweennessEntry.fields (Num 0) 0)) verses"
  have scores: "map (betweennessEntryOf ?B0 ?m) verses = ?scores"
    using entry by simp
  have "\<forall>a \<in> set ?scores. \<forall>b \<in> set ?scores.
      \<not> js_positive (js_sub (betweennessCentrality b) (betweennessCentrality a))"
    by (auto simp: verse.defs betweennessEntry.defs)
  then have "js_sort (\<lambda>a b. js_sub (betweennessCentrality b) (betweennessCentrality a)) ?scores = ?scores"
    by (rule js_sort_id)
  then show ?thesis
    unfolding computeBetweenness_def Let_def by (simp add: run scores)
qed

text \<open>
  Claim C7, as amended. The two functions validate nothing. With an empty betweenness
  slot, a sample size \<open>s \<le> 0\<close> makes \<open>calculateBetweennessCentrality\<close> draw no sample and
  return every verse, in input order, with score and accumulator 0, whatever
  \<open>Math.random()\<close> would return. With an empty communities slot, an iteration count
  \<open>n \<le> 0\<close> makes \<open>detectCommunities\<close> run no iteration: every verse keeps its own id as
  label. A sample size of at least the number of verses behaves as the number of verses.
\<close>

theorem nonpositive_parameters_run_silently:
  "(statsCache.betweenness c = None \<and> s \<le> 0 \<longrightarrow>
      fst (calculateBetweennessCentrality c verses (Some s) rnd) =
        Inr (map (\<lambda>v. verse.extend v (betweennessEntry.fields (Num 0) 0)) verses)) \<and>
   (statsCache.communities c = None \<and> n \<le> 0 \<longrightarrow>
      labels (fst (detectCommunities c verses (Some n) shuffle)) =
        new_Map (map (\<lambda>v. (id_v v, Some (id_v v))) verses)) \<and>
   (int (length verses) \<le> s \<longrightarrow>
      calculateBetweennessCentrality c verses (Some s) rnd =
        calculateBetweennessCentrality c verses (Some (int (length verses))) rnd)"
proof (intro conjI impI)
  assume "statsCache.betweenness c = None \<and> s \<le> 0"
  then show "fst (calculateBetweennessCentrality c verses (Some s) rnd) =
        Inr (map (\<lambda>v. verse.extend v (betweennessEntry.fields (Num 0) 0)) verses)"
    by (simp add: calculateBetweennessCentrality_def computeBetweenness_no_sample)
next
  assume a: "statsCache.communities c = None \<and> n \<le> 0"
  then have "propagate verses shuffle n 0 (new_Map (map (\<lambda>v. (id_v v, Some (id_v v))) verses)) =
      new_Map (map (\<lambda>v. (id_v v, Some (id_v v))) verses)"
    by (simp add: propagate.simps)
  then show "labels (fst (detectCommunities c verses (Some n) shuffle)) =
        new_Map (map (\<lambda>v. (id_v v, Some (id_v v))) verses)"
    using a by (simp add: detectCommunities_def computeCommunities_def Let_def)
next
  assume "int (length verses) \<le> s"
  then have "min s (int (length verses)) = min (int (length verses)) (int (length verses))"
    by simp
  then have "computeBetweenness verses (Some s) rnd =
      computeBetweenness verses (Some (int (length verses))) rnd"
    unfolding computeBetweenness_def by simp
  then show "calculateBetweennessCentrality c verses (Some s) rnd =
        calculateBetweennessCentrality c verses (Some (int (length verses))) rnd"
    unfolding calculateBetweennessCentrality_def by (simp only:)
qed

text \<open>
  The claim as stated fails: with sample size \<open>-1\<close> or \<open>0\<close>, and with iteration count
  \<open>-1\<close>, the calls return normally instead of rejecting the argument.
\<close>

theorem invalid_parameters_not_rejected_counterexample:
  "(\<exists>scores. fst (calculateBetweennessCentrality emptyCache chain4 (Some (- 1)) sampleAD) = Inr scores \<and>
      map betweennessCentrality scores = [Num 0, Num 0, Num 0, Num 0]) \<and>
   (\<exists>scores. fst (calculateBetweennessCentrality emptyCache chain4 (Some 0) sampleAD) = Inr scores) \<and>
   map snd (labels (fst (detectCommunities emptyCache chain4 (Some (- 1)) inputOrder))) =
     [Some ''A'', Some ''B'', Some ''C'', Some ''D'']"
proof -
  have a: "map betweennessCentrality
      (case fst (calculateBetweennessCentrality emptyCache chain4 (Some (- 1)) sampleAD) of
         Inl err \<Rightarrow> [] | Inr s \<Rightarrow> s) = [Num 0, Num 0, Num 0, Num 0]"
    by code_simp
  have b: "(case fst (calculateBetweennessCentrality emptyCache chain4 (Some 0) sampleAD) of
         Inl err \<Rightarrow> False | Inr s \<Rightarrow> True)"
    by code_simp
  have c: "map snd (labels (fst (detectCommunities emptyCache chain4 (Some (- 1)) inputOrder))) =
     [Some ''A'', Some ''B'', Some ''C'', Some ''D'']"
    by code_simp
  show ?thesis
    using a b c
    by (cases "fst (calculateBetweennessCentrality emptyCache chain4 (Some (- 1)) sampleAD)";
        cases "fst (calculateBetweennessCentrality emptyCache chain4 (Some 0) sampleAD)") simp_all
qed

theorem nonpositive_parameters_run_silently_witness:
  "statsCache.betweenness emptyCache = None \<and> (- 1 :: int) \<le> 0 \<and>
   statsCache.communities emptyCache = None \<and> (0 :: int) \<le> 0 \<and>
   fst (calculateBetweennessCentrality emptyCache chain4 (Some (- 1)) sampleAD) =
     Inr (map (\<lambda>v. verse.extend v (betweennessEntry.fields (Num 0) 0)) chain4) \<and>
   labels (fst (detectCommunities emptyCache chain4 (Some 0) inputOrder)) =
     new_Map (map (\<lambda>v. (id_v v, Some (id_v v))) chain4)"
proof -
  have h: "statsCache.betweenness emptyCache = None" "statsCache.communities emptyCache = None"
    by (simp_all add: emptyCache_def)
  show ?thesis
    using h
      nonpositive_parameters_run_silently [of emptyCache "- 1" chain4 sampleAD]
      nonpositive_parameters_run_silently [of emptyCache 0 chain4 sampleAD 0 inputOrder]
    by simp
qed

section \<open>Dangling references are skipped\<close>

lemma dropDangling_simps:
  "id_v (dropDangling verses v) = id_v v"
  "refCount (dropDangling verses v) = refCount v"
  "refs (dropDangling verses v) = filter (resolvable verses) (refs v)"
  by (simp_all add: dropDangling_def)

lemma Map_set_onValues:
  "Map_set (map (onValues g) m) k (g v) = map (onValues g) (Map_set m k v)"
  by (induction m) (auto simp: onValues_def)

lemma Map_get_onValues: "Map_get (map (onValues g) m) k = map_option g (Map_get m k)"
  by (induction m) (auto simp: onValues_def Map_get_def)

lemma Map_has_onValues: "Map_has (map (onValues g) m) k = Map_has m k"
  by (simp add: Map_has_get Map_get_onValues)

lemma foldl_Map_set_onValues:
  "foldl (\<lambda>m (k, v). Map_set m k v) (map (onValues g) m) (map (\<lambda>v. (h v, g v)) vs) =
   map (onValues g) (foldl (\<lambda>m (k, v). Map_set m k v) m (map (\<lambda>v. (h v, v)) vs))"
  by (induction vs arbitrary: m) (simp_all add: Map_set_onValues)

lemma verseMap_of_dropDangling:
  "verseMap_of (map (dropDangling vs) verses) = map (onValues (dropDangling vs)) (verseMap_of verses)"
  using foldl_Map_set_onValues[of "dropDangling vs" "[]" id_v verses]
  by (simp add: verseMap_of_def new_Map_def o_def dropDangling_simps)

lemma resolvable_iff: "resolvable verses r \<longleftrightarrow> Map_get (verseMap_of verses) r \<noteq> None"
proof -
  have "fst ` set (verseMap_of verses) = id_v ` set verses"
    using keys_new_Map(1)[of "map (\<lambda>v. (id_v v, v)) verses"]
    by (simp add: verseMap_of_def image_image)
  then show ?thesis
    by (simp add: resolvable_def Map_get_def map_of_eq_None_iff)
qed

lemma newVerses_dropDangling:
  "sameResolved verses V V' \<Longrightarrow>
   newVerses (map (onValues (dropDangling verses)) (verseMap_of verses))
     (filter (resolvable verses) rs) V' =
   map (dropDangling verses) (newVerses (verseMap_of verses) rs V)"
proof (induction rs arbitrary: V V')
  case Nil
  then show ?case by simp
next
  case (Cons r rs)
  show ?case
  proof (cases "resolvable verses r")
    case True
    then obtain v where v: "Map_get (verseMap_of verses) r = Some v"
      using resolvable_iff by auto
    have mem: "r \<in> V \<longleftrightarrow> r \<in> V'" using Cons.prems True by (auto simp: sameResolved_def)
    have "sameResolved verses (insert r V) (insert r V')"
      using Cons.prems by (auto simp: sameResolved_def)
    from Cons.IH[OF this] Cons.IH[OF Cons.prems] show ?thesis
      using True v mem by (simp add: Map_get_onValues)
  next
    case False
    then have none: "Map_get (verseMap_of verses) r = None" using resolvable_iff by auto
    have "sameResolved verses (insert r V) V'"
      using Cons.prems False by (auto simp: sameResolved_def)
    from Cons.IH[OF this] Cons.IH[OF Cons.prems] show ?thesis
      using False none by simp
  qed
qed

lemma sameResolved_visit:
  "sameResolved verses V V' \<Longrightarrow>
   sameResolved verses (V \<union> set rs) (V' \<union> set (filter (resolvable verses) rs))"
  by (auto simp: sameResolved_def)

lemma bfsLoop_dropDangling:
  "vm = verseMap_of verses \<Longrightarrow> sameResolved verses V V' \<Longrightarrow>
   pathIds (bfsLoop (map (onValues (dropDangling verses)) vm) e
              (map (map (dropDangling verses)) Q) V') =
   pathIds (bfsLoop vm e Q V)"
proof (induction vm e Q V arbitrary: V' rule: bfsLoop.induct)
  case (1 verseMap end_v visited)
  then show ?case by simp
next
  case (2 verseMap end_v path queue visited)
  note vm = "2.prems"(1) and rel = "2.prems"(2)
  let ?f = "dropDangling verses"
  let ?vm' = "map (onValues ?f) verseMap"
  show ?case
  proof (cases "maxDepth < length path")
    case True
    then show ?thesis using "2.IH"(1)[OF True vm rel] by simp
  next
    case False
    show ?thesis
    proof (cases "path = []")
      case True
      then show ?thesis using False by simp
    next
      case pne: False
      have last: "last (map ?f path) = ?f (last path)" using pne by (simp add: last_map)
      show ?thesis
      proof (cases "id_v (last path) = id_v end_v")
        case True
        then show ?thesis using False pne last
          by (simp add: dropDangling_simps pathIds_def o_def)
      next
        case ne: False
        let ?rs = "refs (last path)"
        let ?N = "newVerses verseMap ?rs visited"
        let ?Q = "queue @ map (\<lambda>v. path @ [v]) ?N"
        let ?V = "visited \<union> set ?rs"
        let ?N' = "newVerses ?vm' (filter (resolvable verses) ?rs) V'"
        have N': "?N' = map ?f ?N"
          unfolding vm by (rule newVerses_dropDangling[OF rel])
        have vr: "(?Q, ?V) = visitRefs verseMap path ?rs queue visited"
          by (simp add: visitRefs_eq)
        have rel': "sameResolved verses ?V (V' \<union> set (filter (resolvable verses) ?rs))"
          by (rule sameResolved_visit[OF rel])
        have ih: "pathIds (bfsLoop ?vm' end_v (map (map ?f) ?Q)
                     (V' \<union> set (filter (resolvable verses) ?rs))) =
                  pathIds (bfsLoop verseMap end_v ?Q ?V)"
          by (rule "2.IH"(2)[OF False pne ne vr vm rel'])
        have q': "map (map ?f) queue @ map (\<lambda>v. map ?f path @ [v]) ?N' = map (map ?f) ?Q"
          unfolding N' by (simp add: o_def)
        have lhs: "bfsLoop ?vm' end_v (map (map ?f) (path # queue)) V' =
            bfsLoop ?vm' end_v (map (map ?f) ?Q) (V' \<union> set (filter (resolvable verses) ?rs))"
          using False pne ne last q' by (simp add: visitRefs_eq dropDangling_simps)
        have rhs: "bfsLoop verseMap end_v (path # queue) visited = bfsLoop verseMap end_v ?Q ?V"
          using False pne ne by (simp add: visitRefs_eq)
        show ?thesis unfolding lhs rhs by (rule ih)
      qed
    qed
  qed
qed

lemma findShortestPath_dropDangling:
  "pathIds (findShortestPath (dropDangling verses start) end_v
              (verseMap_of (map (dropDangling verses) verses))) =
   pathIds (findShortestPath start end_v (verseMap_of verses))"
proof -
  have "sameResolved verses {id_v start} {id_v start}" by (simp add: sameResolved_def)
  from bfsLoop_dropDangling[OF refl this, of end_v "[[start]]"]
  show ?thesis
    by (simp add: findShortestPath_def verseMap_of_dropDangling dropDangling_simps)
qed

lemma findShortestPath_returns: "findShortestPath start end_v vm \<noteq> Inl err"
proof -
  have "case bfsLoop vm end_v [[start]] {id_v start} of
      Inl err \<Rightarrow> False | Inr None \<Rightarrow> True | Inr (Some p) \<Rightarrow> \<forall>v \<in> set p. True"
    by (rule bfsLoop_elems) simp_all
  then show ?thesis unfolding findShortestPath_def by (auto split: sum.splits)
qed

lemma js_insert_map:
  "js_insert cmp (h a) (map h xs) = map h (js_insert (\<lambda>a b. cmp (h a) (h b)) a xs)"
  by (induction xs) simp_all

lemma js_sort_map:
  "js_sort cmp (map h xs) = map h (js_sort (\<lambda>a b. cmp (h a) (h b)) xs)"
  by (induction xs) (simp_all add: js_sort_def js_insert_map)

lemma resolveNeighbors_dropDangling:
  "resolveNeighbors (map (onValues (dropDangling verses)) (verseMap_of verses))
     (dropDangling verses v) =
   map (dropDangling verses) (resolveNeighbors (verseMap_of verses) v)"
proof -
  have "List.map_filter (Map_get (map (onValues (dropDangling verses)) (verseMap_of verses)))
          (filter (resolvable verses) rs) =
        map (dropDangling verses) (List.map_filter (Map_get (verseMap_of verses)) rs)" for rs
    by (induction rs)
       (auto simp: List.map_filter_simps Map_get_onValues resolvable_iff split: option.splits)
  then show ?thesis by (simp add: resolveNeighbors_def dropDangling_simps)
qed

lemma resolveNeighbors_resolvable:
  "n \<in> set (resolveNeighbors (verseMap_of verses) v) \<Longrightarrow> resolvable verses (id_v n)"
proof -
  assume "n \<in> set (resolveNeighbors (verseMap_of verses) v)"
  then obtain r where "Map_get (verseMap_of verses) r = Some n"
    by (auto simp: resolveNeighbors_def List.map_filter_def)
  then have "n \<in> set verses" by (rule verseMap_of_member)
  then show ?thesis by (simp add: resolvable_def)
qed

lemma countConnections_dropDangling:
  "\<forall>n \<in> set nb. resolvable verses (id_v n) \<Longrightarrow>
   countConnections (map (dropDangling verses) nb) = countConnections nb"
proof (induction nb)
  case Nil
  then show ?case by simp
next
  case (Cons n ns)
  have "filter (\<lambda>m. id_v m \<in> set (refs n) \<and> resolvable verses (id_v m)) ns =
        filter (\<lambda>m. id_v m \<in> set (refs n)) ns"
    using Cons.prems by (intro filter_cong) auto
  then have "filter (\<lambda>m. id_v m \<in> set (refs (dropDangling verses n))) (map (dropDangling verses) ns) =
        map (dropDangling verses) (filter (\<lambda>m. id_v m \<in> set (refs n)) ns)"
    by (simp add: filter_map o_def dropDangling_simps)
  then show ?case using Cons by simp
qed

lemma clusteringScore_dropDangling:
  "clusteringCoefficient
     (clusteringScore (map (onValues (dropDangling verses)) (verseMap_of verses))
        (dropDangling verses v)) =
   clusteringCoefficient (clusteringScore (verseMap_of verses) v)"
  "id_v (clusteringScore (map (onValues (dropDangling verses)) (verseMap_of verses))
        (dropDangling verses v)) =
   id_v (clusteringScore (verseMap_of verses) v)"
proof -
  let ?vm = "verseMap_of verses" and ?f = "dropDangling verses"
  have cc: "countConnections (map ?f (resolveNeighbors ?vm v)) =
      countConnections (resolveNeighbors ?vm v)"
    by (rule countConnections_dropDangling) (use resolveNeighbors_resolvable in blast)
  show "clusteringCoefficient (clusteringScore (map (onValues ?f) ?vm) (?f v)) =
      clusteringCoefficient (clusteringScore ?vm v)"
    unfolding clusteringScore_def Let_def resolveNeighbors_dropDangling
    by (simp add: cc dropDangling_simps verse.defs clusteringEntry.defs)
  show "id_v (clusteringScore (map (onValues ?f) ?vm) (?f v)) = id_v (clusteringScore ?vm v)"
    unfolding clusteringScore_def Let_def
    by (simp add: dropDangling_simps verse.defs clusteringEntry.defs)
qed

lemma computeClustering_dropDangling:
  "map (\<lambda>e. (id_v e, clusteringCoefficient e))
     (computeClusteringCoefficient (map (dropDangling verses) verses)) =
   map (\<lambda>e. (id_v e, clusteringCoefficient e)) (computeClusteringCoefficient verses)"
proof -
  let ?vm = "verseMap_of verses" and ?f = "dropDangling verses"
  let ?h' = "\<lambda>v. clusteringScore (map (onValues ?f) ?vm) (?f v)"
  let ?h = "clusteringScore ?vm"
  let ?cmp = "\<lambda>a b. js_sub (clusteringCoefficient b) (clusteringCoefficient a)"
  have same: "(\<lambda>a b. ?cmp (?h' a) (?h' b)) = (\<lambda>a b. ?cmp (?h a) (?h b))"
    by (simp add: clusteringScore_dropDangling)
  have l: "computeClusteringCoefficient (map ?f verses) = js_sort ?cmp (map ?h' verses)"
    by (simp add: computeClusteringCoefficient_def Let_def verseMap_of_dropDangling o_def)
  have r: "computeClusteringCoefficient verses = js_sort ?cmp (map ?h verses)"
    by (simp add: computeClusteringCoefficient_def Let_def)
  show ?thesis
    unfolding l r js_sort_map same
    by (simp add: clusteringScore_dropDangling o_def)
qed

lemma foldl_filter_skip:
  "\<forall>x a. \<not> P x \<longrightarrow> step a x = a \<Longrightarrow> foldl step a (filter P xs) = foldl step a xs"
  by (induction xs arbitrary: a) simp_all

lemma getLabel_dangling: "keysIn verses lbls \<Longrightarrow> \<not> resolvable verses r \<Longrightarrow> getLabel lbls r = None"
proof -
  assume "keysIn verses lbls" "\<not> resolvable verses r"
  then have "r \<notin> fst ` set lbls" by (auto simp: keysIn_def resolvable_def)
  then have "map_of lbls r = None" by (simp add: map_of_eq_None_iff)
  then show ?thesis by (simp add: getLabel_def Map_get_def)
qed

lemma countLabels_dropDangling:
  "keysIn verses lbls \<Longrightarrow> countLabels lbls (filter (resolvable verses) rs) = countLabels lbls rs"
  unfolding countLabels_def
  by (rule foldl_filter_skip) (simp add: getLabel_dangling)

lemma updateLabel_dropDangling:
  "keysIn verses (fst acc) \<Longrightarrow> updateLabel acc (dropDangling verses v) = updateLabel acc v"
  by (cases acc) (simp add: dropDangling_simps countLabels_dropDangling Let_def)

lemma keysIn_updateLabel:
  "keysIn verses (fst acc) \<Longrightarrow> v \<in> set verses \<Longrightarrow> keysIn verses (fst (updateLabel acc v))"
  by (cases acc) (auto simp: keysIn_def Let_def keys_Map_set_image)

lemma foldl_updateLabel_dropDangling:
  "keysIn verses (fst acc) \<Longrightarrow> set vs \<subseteq> set verses \<Longrightarrow>
   foldl updateLabel acc (map (dropDangling verses) vs) = foldl updateLabel acc vs \<and>
   keysIn verses (fst (foldl updateLabel acc vs))"
proof (induction vs arbitrary: acc)
  case Nil
  then show ?case by simp
next
  case (Cons v vs)
  have k: "keysIn verses (fst (updateLabel acc v))"
    using Cons.prems by (simp add: keysIn_updateLabel)
  have "set vs \<subseteq> set verses" using Cons.prems by simp
  from Cons.IH[OF k this] show ?case
    using Cons.prems by (simp add: updateLabel_dropDangling)
qed

lemma propagate_dropDangling:
  "keysIn verses lbls \<Longrightarrow> \<forall>k. set (shuffle k verses) \<subseteq> set verses \<Longrightarrow>
   propagate (map (dropDangling verses) verses)
     (\<lambda>k vs. map (dropDangling verses) (shuffle k verses)) iterations iter lbls =
   propagate verses shuffle iterations iter lbls"
proof (induction verses shuffle iterations iter lbls rule: propagate.induct)
  case (1 verses shuffle iterations iter lbls)
  let ?f = "dropDangling verses"
  note unf = propagate.simps[of verses shuffle iterations iter lbls]
    and unf' = propagate.simps[of "map ?f verses" "\<lambda>k vs. map ?f (shuffle k verses)" iterations iter lbls]
  show ?case
  proof (cases "int iter < iterations")
    case False
    then show ?thesis by (simp add: unf unf')
  next
    case True
    have sub: "set (shuffle iter verses) \<subseteq> set verses" using "1.prems"(2) by simp
    have k0: "keysIn verses (fst (lbls, 0::nat))" using "1.prems"(1) by simp
    note step = foldl_updateLabel_dropDangling[OF k0 sub]
    obtain lbls' changed where f: "foldl updateLabel (lbls, 0) (shuffle iter verses) = (lbls', changed)"
      by (cases "foldl updateLabel (lbls, 0) (shuffle iter verses)")
    have f': "foldl updateLabel (lbls, 0) (map ?f (shuffle iter verses)) = (lbls', changed)"
      using step f by simp
    have k': "keysIn verses lbls'" using step f by simp
    show ?thesis
    proof (cases "changed = 0")
      case True
      then show ?thesis using \<open>int iter < iterations\<close> f f' by (simp add: unf unf')
    next
      case False
      have "propagate (map ?f verses) (\<lambda>k vs. map ?f (shuffle k verses)) iterations (iter + 1) lbls' =
          propagate verses shuffle iterations (iter + 1) lbls'"
        using "1.IH"[OF True f[symmetric] False k' "1.prems"(2)] .
      then show ?thesis using True f f' False by (simp add: unf unf')
    qed
  qed
qed

lemma keysIn_init: "keysIn verses (new_Map (map (\<lambda>v. (id_v v, Some (id_v v))) verses))"
  using keys_new_Map(1)[of "map (\<lambda>v. (id_v v, Some (id_v v))) verses"]
  by (simp add: keysIn_def image_image)

lemma groupStep_onValues:
  "groupStep lbls (map (onValues (map (dropDangling verses))) g) (dropDangling verses v) =
   map (onValues (map (dropDangling verses))) (groupStep lbls g v)"
proof -
  let ?G = "map (dropDangling verses)"
  let ?l = "getLabel lbls (id_v v)"
  have e: "Map_set (map (onValues ?G) m) ?l [] = map (onValues ?G) (Map_set m ?l [])" for m
    using Map_set_onValues[of ?G m ?l "[]"] by simp
  have a: "(case map_option ?G x of None \<Rightarrow> [] | Some members \<Rightarrow> members) @ [dropDangling verses v] =
      ?G ((case x of None \<Rightarrow> [] | Some members \<Rightarrow> members) @ [v])" for x
    by (cases x) simp_all
  have h: "Map_set (map (onValues ?G) m) ?l
             ((case Map_get (map (onValues ?G) m) ?l of None \<Rightarrow> [] | Some members \<Rightarrow> members) @
              [dropDangling verses v]) =
           map (onValues ?G)
             (Map_set m ?l ((case Map_get m ?l of None \<Rightarrow> [] | Some members \<Rightarrow> members) @ [v]))"
    for m
  proof -
    have "(case Map_get (map (onValues ?G) m) ?l of None \<Rightarrow> [] | Some members \<Rightarrow> members) @
              [dropDangling verses v] =
          ?G ((case Map_get m ?l of None \<Rightarrow> [] | Some members \<Rightarrow> members) @ [v])"
      unfolding Map_get_onValues by (rule a)
    then show ?thesis by (simp only: Map_set_onValues)
  qed
  show ?thesis
  proof (cases "Map_has g ?l")
    case True
    then show ?thesis
      unfolding groupStep_def Let_def dropDangling_simps Map_has_onValues
      by (simp only: simp_thms if_False h)
  next
    case False
    then show ?thesis
      unfolding groupStep_def Let_def dropDangling_simps Map_has_onValues
      by (simp only: simp_thms if_True e h)
  qed
qed

lemma groupByLabel_dropDangling:
  "groupByLabel lbls (map (dropDangling verses) vs) =
   map (onValues (map (dropDangling verses))) (groupByLabel lbls vs)"
proof -
  have "foldl (groupStep lbls) (map (onValues (map (dropDangling verses))) g)
          (map (dropDangling verses) vs) =
        map (onValues (map (dropDangling verses))) (foldl (groupStep lbls) g vs)" for g
    by (induction vs arbitrary: g) (simp_all add: groupStep_onValues)
  from this[of "[]"] show ?thesis by (simp add: groupByLabel_def)
qed

lemma computeCommunities_dropDangling:
  assumes "\<forall>k. set (shuffle k verses) \<subseteq> set verses"
  shows "labels (computeCommunities (map (dropDangling verses) verses) n
                   (\<lambda>k vs. map (dropDangling verses) (shuffle k verses))) =
         labels (computeCommunities verses n shuffle)"
    and "map (\<lambda>(l, members). (l, map id_v members))
           (communityResult.communities
              (computeCommunities (map (dropDangling verses) verses) n
                 (\<lambda>k vs. map (dropDangling verses) (shuffle k verses)))) =
         map (\<lambda>(l, members). (l, map id_v members))
           (communityResult.communities (computeCommunities verses n shuffle))"
proof -
  let ?f = "dropDangling verses"
  let ?R' = "computeCommunities (map ?f verses) n (\<lambda>k vs. map ?f (shuffle k verses))"
  let ?R = "computeCommunities verses n shuffle"
  let ?cmp = "\<lambda>a b. js_sub (of_count (length (snd b))) (of_count (length (snd a)))"
  let ?big = "\<lambda>(l, members). 3 \<le> length members"
  show L: "labels ?R' = labels ?R"
    unfolding computeCommunities_fields(1)
    using propagate_dropDangling[where verses = verses and shuffle = shuffle, OF keysIn_init assms]
    by (simp add: o_def dropDangling_simps)
  have bigG: "filter ?big (map (onValues (map ?f)) g) = map (onValues (map ?f)) (filter ?big g)" for g
    by (induction g) (auto simp: onValues_def)
  have cmpG: "(\<lambda>a b. ?cmp (onValues (map ?f) a) (onValues (map ?f) b)) = ?cmp"
    by (simp add: onValues_def)
  have "communityResult.communities ?R' =
      map (onValues (map ?f)) (communityResult.communities ?R)"
    unfolding computeCommunities_fields(2) L groupByLabel_dropDangling bigG js_sort_map cmpG ..
  then show "map (\<lambda>(l, members). (l, map id_v members)) (communityResult.communities ?R') =
         map (\<lambda>(l, members). (l, map id_v members)) (communityResult.communities ?R)"
    by (simp add: o_def onValues_def dropDangling_simps case_prod_beta)
qed

text \<open>
  Claim C8. For every verse list, with any references to ids of no verse: the path search
  never throws, and it returns the same result (the same ids in the same order, or
  \<open>null\<close>) as on the graph from which the unresolvable references are removed; the
  clustering coefficients are those of that graph; and, when every iteration visits
  verses of the list, community detection yields the same labels and the same
  communities as on that graph. The clustering and community functions cannot throw at
  all: they return a result for every input.
\<close>

theorem dangling_references_skipped:
  "pathIds (findShortestPath (dropDangling verses start) end_v
              (verseMap_of (map (dropDangling verses) verses))) =
     pathIds (findShortestPath start end_v (verseMap_of verses)) \<and>
   (\<forall>err. findShortestPath start end_v (verseMap_of verses) \<noteq> Inl err) \<and>
   map (\<lambda>e. (id_v e, clusteringCoefficient e))
       (fst (calculateClusteringCoefficient emptyCache (map (dropDangling verses) verses))) =
     map (\<lambda>e. (id_v e, clusteringCoefficient e))
       (fst (calculateClusteringCoefficient emptyCache verses)) \<and>
   ((\<forall>k. set (shuffle k verses) \<subseteq> set verses) \<longrightarrow>
      labels (fst (detectCommunities emptyCache (map (dropDangling verses) verses) n
                     (\<lambda>k vs. map (dropDangling verses) (shuffle k verses)))) =
        labels (fst (detectCommunities emptyCache verses n shuffle)) \<and>
      map (\<lambda>(l, members). (l, map id_v members))
          (communityResult.communities
             (fst (detectCommunities emptyCache (map (dropDangling verses) verses) n
                     (\<lambda>k vs. map (dropDangling verses) (shuffle k verses))))) =
        map (\<lambda>(l, members). (l, map id_v members))
          (communityResult.communities (fst (detectCommunities emptyCache verses n shuffle))))"
proof (intro conjI impI allI)
  show "pathIds (findShortestPath (dropDangling verses start) end_v
              (verseMap_of (map (dropDangling verses) verses))) =
     pathIds (findShortestPath start end_v (verseMap_of verses))"
    by (rule findShortestPath_dropDangling)
  show "findShortestPath start end_v (verseMap_of verses) \<noteq> Inl err" for err
    by (rule findShortestPath_returns)
  have cl: "fst (calculateClusteringCoefficient emptyCache vs) = computeClusteringCoefficient vs" for vs
    by (simp add: calculateClusteringCoefficient_def emptyCache_def Let_def)
  show "map (\<lambda>e. (id_v e, clusteringCoefficient e))
       (fst (calculateClusteringCoefficient emptyCache (map (dropDangling verses) verses))) =
     map (\<lambda>e. (id_v e, clusteringCoefficient e))
       (fst (calculateClusteringCoefficient emptyCache verses))"
    unfolding cl by (rule computeClustering_dropDangling)
next
  assume sh: "\<forall>k. set (shuffle k verses) \<subseteq> set verses"
  have dc: "fst (detectCommunities emptyCache vs n s) = computeCommunities vs n s" for vs s
    by (simp add: detectCommunities_def emptyCache_def Let_def)
  show "labels (fst (detectCommunities emptyCache (map (dropDangling verses) verses) n
                     (\<lambda>k vs. map (dropDangling verses) (shuffle k verses)))) =
        labels (fst (detectCommunities emptyCache verses n shuffle))"
    unfolding dc by (rule computeCommunities_dropDangling(1)[where verses = verses and shuffle = shuffle, OF sh])
  show "map (\<lambda>(l, members). (l, map id_v members))
          (communityResult.communities
             (fst (detectCommunities emptyCache (map (dropDangling verses) verses) n
                     (\<lambda>k vs. map (dropDangling verses) (shuffle k verses))))) =
        map (\<lambda>(l, members). (l, map id_v members))
          (communityResult.communities (fst (detectCommunities emptyCache verses n shuffle)))"
    unfolding dc by (rule computeCommunities_dropDangling(2)[where verses = verses and shuffle = shuffle, OF sh])
qed


theorem dangling_references_skipped_witness:
  "map refs (map (dropDangling danglingGraph) danglingGraph) =
     [[''B'', ''C''], [''A'', ''C''], [''B'', ''A'', ''D''], [''C'']] \<and>
   pathIds (findShortestPath (danglingGraph ! 0) (danglingGraph ! 3) (verseMap_of danglingGraph)) =
     Inr (Some [''A'', ''C'', ''D'']) \<and>
   pathIds (findShortestPath (dropDangling danglingGraph (danglingGraph ! 0)) (danglingGraph ! 3)
              (verseMap_of (map (dropDangling danglingGraph) danglingGraph))) =
     Inr (Some [''A'', ''C'', ''D'']) \<and>
   labels (fst (detectCommunities emptyCache (map (dropDangling danglingGraph) danglingGraph)
                  (Some 5) (\<lambda>k vs. map (dropDangling danglingGraph) (inputOrder k danglingGraph)))) =
     labels (fst (detectCommunities emptyCache danglingGraph (Some 5) inputOrder))"
proof -
  have r: "map refs (map (dropDangling danglingGraph) danglingGraph) =
     [[''B'', ''C''], [''A'', ''C''], [''B'', ''A'', ''D''], [''C'']]"
    by code_simp
  have p: "pathIds (findShortestPath (danglingGraph ! 0) (danglingGraph ! 3)
      (verseMap_of danglingGraph)) = Inr (Some [''A'', ''C'', ''D''])"
    by code_simp
  have h: "\<forall>k. set (inputOrder k danglingGraph) \<subseteq> set danglingGraph"
    by (simp add: inputOrder_def)
  show ?thesis
    using r p h
      dangling_references_skipped
        [of danglingGraph "danglingGraph ! 0" "danglingGraph ! 3" inputOrder "Some 5"]
    by simp
qed

end
